theory Spec2Isabelle
  imports Main "HOL-Library.Word"
begin

unbundle bit_operations_syntax

section \<open>Bytes and the SHA-256 digest\<close>

text \<open>
  A Go byte slice is a list of 8-bit words. A nil slice and an empty slice are both the
  empty list: \<^verbatim>\<open>bytes.Equal\<close>, \<^verbatim>\<open>len\<close>, \<^verbatim>\<open>append\<close> and \<^verbatim>\<open>range\<close>, the only operations
  the package applies to slices, do not tell them apart.
\<close>

type_synonym byte = "8 word"
type_synonym u32 = "32 word"

text \<open>
  \<^verbatim>\<open>hashing.HashSHA256\<close> writes its argument into a fresh \<^verbatim>\<open>crypto/sha256\<close> state and
  returns \<^verbatim>\<open>Sum(nil)\<close>. The digest of the Go standard library is SHA-256 of FIPS 180-4,
  which is written out here on 32-bit words: padding, message schedule, 64 rounds per
  64-byte block, big-endian output.
\<close>

definition rotr :: "nat \<Rightarrow> u32 \<Rightarrow> u32" where
  "rotr k x = drop_bit k x OR push_bit (32 - k) x"

definition Ch :: "u32 \<Rightarrow> u32 \<Rightarrow> u32 \<Rightarrow> u32" where
  "Ch x y z = (x AND y) XOR (NOT x AND z)"

definition Maj :: "u32 \<Rightarrow> u32 \<Rightarrow> u32 \<Rightarrow> u32" where
  "Maj x y z = (x AND y) XOR (x AND z) XOR (y AND z)"

definition bsig0 :: "u32 \<Rightarrow> u32" where
  "bsig0 x = rotr 2 x XOR rotr 13 x XOR rotr 22 x"

definition bsig1 :: "u32 \<Rightarrow> u32" where
  "bsig1 x = rotr 6 x XOR rotr 11 x XOR rotr 25 x"

definition ssig0 :: "u32 \<Rightarrow> u32" where
  "ssig0 x = rotr 7 x XOR rotr 18 x XOR drop_bit 3 x"

definition ssig1 :: "u32 \<Rightarrow> u32" where
  "ssig1 x = rotr 17 x XOR rotr 19 x XOR drop_bit 10 x"

text \<open>
  The round constants (the first 32 bits of the fractional parts of the cube roots of the
  first 64 primes) and the initial hash value (likewise from the square roots of the
  first 8 primes), in decimal.
\<close>

definition K256 :: "u32 list" where
  "K256 = [
    1116352408, 1899447441, 3049323471, 3921009573, 961987163, 1508970993, 2453635748, 2870763221,
    3624381080, 310598401, 607225278, 1426881987, 1925078388, 2162078206, 2614888103, 3248222580,
    3835390401, 4022224774, 264347078, 604807628, 770255983, 1249150122, 1555081692, 1996064986,
    2554220882, 2821834349, 2952996808, 3210313671, 3336571891, 3584528711, 113926993, 338241895,
    666307205, 773529912, 1294757372, 1396182291, 1695183700, 1986661051, 2177026350, 2456956037,
    2730485921, 2820302411, 3259730800, 3345764771, 3516065817, 3600352804, 4094571909, 275423344,
    430227734, 506948616, 659060556, 883997877, 958139571, 1322822218, 1537002063, 1747873779,
    1955562222, 2024104815, 2227730452, 2361852424, 2428436474, 2756734187, 3204031479, 3329325298]"

definition H256 :: "u32 list" where
  "H256 = [1779033703, 3144134277, 1013904242, 2773480762,
           1359893119, 2600822924, 528734635, 1541459225]"

text \<open>Padding: the byte 0x80, zero bytes up to 56 modulo 64, the bit length on 64 bits.\<close>

definition pad :: "byte list \<Rightarrow> byte list" where
  "pad m = m @ [0x80] @ replicate ((119 - length m mod 64) mod 64) 0 @
     map (\<lambda>i. ucast (drop_bit (8 * (7 - i)) (8 * of_nat (length m) :: 64 word))) [0..<8]"

definition be32 :: "byte \<Rightarrow> byte \<Rightarrow> byte \<Rightarrow> byte \<Rightarrow> u32" where
  "be32 a b c d =
     push_bit 24 (ucast a) OR push_bit 16 (ucast b) OR push_bit 8 (ucast c) OR ucast d"

fun words :: "byte list \<Rightarrow> u32 list" where
  "words (a # b # c # d # rest) = be32 a b c d # words rest"
| "words _ = []"

fun schedule :: "nat \<Rightarrow> u32 list \<Rightarrow> u32 list" where
  "schedule 0 w = w"
| "schedule (Suc k) w =
     schedule k (w @ [ssig1 (w ! (length w - 2)) + w ! (length w - 7)
                      + ssig0 (w ! (length w - 15)) + w ! (length w - 16)])"

fun rounds :: "u32 list \<Rightarrow> u32 list \<Rightarrow> u32 list \<Rightarrow> u32 list" where
  "rounds (k # ks) (w # ws) [a, b, c, d, e, f, g, h] =
     (let t1 = h + bsig1 e + Ch e f g + k + w;
          t2 = bsig0 a + Maj a b c
      in rounds ks ws [t1 + t2, a, b, c, d + t1, e, f, g])"
| "rounds _ _ s = s"

definition compress :: "u32 list \<Rightarrow> byte list \<Rightarrow> u32 list" where
  "compress hs block = map2 (+) hs (rounds K256 (schedule 48 (words block)) hs)"

fun blocks :: "u32 list \<Rightarrow> byte list \<Rightarrow> nat \<Rightarrow> u32 list" where
  "blocks hs m 0 = hs"
| "blocks hs m (Suc k) = blocks (compress hs (take 64 m)) (drop 64 m) k"

definition bytes_of :: "u32 \<Rightarrow> byte list" where
  "bytes_of x = [ucast (drop_bit 24 x), ucast (drop_bit 16 x), ucast (drop_bit 8 x), ucast x]"

definition HashSHA256 :: "byte list \<Rightarrow> byte list" where
  "HashSHA256 b = concat (map bytes_of (blocks H256 (pad b) (length (pad b) div 64)))"

section \<open>Hash strategies\<close>

text \<open>
  The interface \<^verbatim>\<open>HashStrategy\<close> is a pair of functions. An interface value may be nil,
  so the fields that hold a strategy have an option type.
\<close>

record HashStrategy =
  HashLeaf :: "byte list \<Rightarrow> byte list"
  HashInternal :: "byte list \<Rightarrow> byte list \<Rightarrow> byte list"

text \<open>
  \<^verbatim>\<open>defaultHashStrategy\<close>: \<^verbatim>\<open>append([]byte{0x00}, l...)\<close>, respectively
  \<^verbatim>\<open>append(append([]byte{0x01}, l...), r...)\<close>, then \<^verbatim>\<open>HashSHA256\<close>.
\<close>

definition defaultHashStrategy :: HashStrategy where
  "defaultHashStrategy =
     \<lparr>HashLeaf = (\<lambda>l. HashSHA256 ([0x00] @ l)),
      HashInternal = (\<lambda>l r. HashSHA256 (([0x01] @ l) @ r))\<rparr>"

section \<open>Nodes, the store, trees and proofs\<close>

text \<open>
  Nodes are reached through pointers, \<^verbatim>\<open>isLeft\<close> compares pointers, and the builder
  writes the parent field of nodes it created earlier. The model therefore keeps an
  explicit store: an address is a natural number, a pointer field is an optional
  address (\<open>None\<close> is nil), and every address holds a node, as every non-nil Go
  pointer does. \<open>next_addr\<close> is the first address that \<^verbatim>\<open>&Node{...}\<close> has not handed out.
\<close>

record Node =
  node_h :: "byte list"
  node_left :: "nat option"
  node_right :: "nat option"
  node_parent :: "nat option"

record heap =
  cells :: "nat \<Rightarrow> Node"
  next_addr :: nat

definition empty_heap :: heap where
  "empty_heap =
     \<lparr>cells = (\<lambda>_. \<lparr>node_h = [], node_left = None, node_right = None, node_parent = None\<rparr>),
      next_addr = 0\<rparr>"

text \<open>\<^verbatim>\<open>&Node{...}\<close>: store the node at a fresh address and return the address.\<close>

definition new_node :: "heap \<Rightarrow> Node \<Rightarrow> heap \<times> nat" where
  "new_node H v =
     (H\<lparr>cells := (cells H)(next_addr H := v), next_addr := Suc (next_addr H)\<rparr>, next_addr H)"

text \<open>The assignment \<^verbatim>\<open>a.parent = p\<close>.\<close>

definition set_parent :: "heap \<Rightarrow> nat \<Rightarrow> nat option \<Rightarrow> heap" where
  "set_parent H a p = H\<lparr>cells := (cells H)(a := (cells H a)\<lparr>node_parent := p\<rparr>)\<rparr>"

text \<open>
  The interface \<^verbatim>\<open>Leaf\<close> gives the package one thing, the bytes of an item, so an item is
  its byte sequence.
\<close>

type_synonym Leaf = "byte list"

definition Bytes :: "Leaf \<Rightarrow> byte list" where
  "Bytes x = x"

text \<open>
  The items of the package's tests and of its usage example: \<^verbatim>\<open>TestLeaf{x}\<close> with
  \<^verbatim>\<open>Bytes() = []byte(x)\<close>.
\<close>

definition TestLeaf :: "string \<Rightarrow> Leaf" where
  "TestLeaf x = map (\<lambda>c. of_nat (of_char c)) x"

text \<open>
  The leaf slice of a tree holds the addresses of its leaf nodes. The Go type \<^verbatim>\<open>int\<close> of
  the node count is an unbounded integer here: the count is at most twice the length of
  a slice, far from the 64-bit limit.
\<close>

record MerkleTree =
  tree_root :: "nat option"
  tree_n :: int
  tree_leaves :: "nat list"
  tree_hashStrategy :: "HashStrategy option"

record Proof =
  proof_root :: "byte list"
  proof_siblings :: "byte list list"
  proof_left :: "bool list"
  proof_hashStrategy :: "HashStrategy option"

section \<open>Building a tree\<close>

text \<open>The first loop of \<^verbatim>\<open>buildMerkleTree\<close>: one leaf node per item, in input order.\<close>

definition leafLevel :: "HashStrategy \<Rightarrow> Leaf list \<Rightarrow> heap \<Rightarrow> heap \<times> nat list" where
  "leafLevel hash data H =
     fold (\<lambda>x (H, level).
             let (H', a) = new_node H \<lparr>node_h = HashLeaf hash (Bytes x), node_left = None,
                                       node_right = None, node_parent = None\<rparr>
             in (H', level @ [a]))
          data (H, [])"

text \<open>
  The body of the inner loop at index \<open>i\<close>: a parent for \<^verbatim>\<open>level[2*i]\<close> and
  \<^verbatim>\<open>level[2*i+1]\<close>, both parent fields set, the parent appended to \<^verbatim>\<open>next\<close>, the
  count incremented.
\<close>

definition mergePair ::
  "HashStrategy \<Rightarrow> nat list \<Rightarrow> nat \<Rightarrow> heap \<times> nat list \<times> int \<Rightarrow> heap \<times> nat list \<times> int" where
  "mergePair hash level i = (\<lambda>(H, next, n).
     let l = level ! (2 * i);
         r = level ! (2 * i + 1);
         (H1, parent) = new_node H
            \<lparr>node_h = HashInternal hash (node_h (cells H l)) (node_h (cells H r)),
             node_left = Some l, node_right = Some r, node_parent = None\<rparr>;
         H2 = set_parent H1 l (Some parent);
         H3 = set_parent H2 r (Some parent)
     in (H3, next @ [parent], n + 1))"

text \<open>
  One pass of the outer loop: the inner loop over \<^verbatim>\<open>range len(level)/2\<close>, then the
  promotion of the last node of a level of odd length.
\<close>

definition nextLevel ::
  "HashStrategy \<Rightarrow> nat list \<Rightarrow> heap \<times> int \<Rightarrow> heap \<times> nat list \<times> int" where
  "nextLevel hash level = (\<lambda>(H, n).
     let (H', next, n') = fold (mergePair hash level) [0..<length level div 2] (H, [], n)
     in (H', if length level mod 2 \<noteq> 0 then next @ [level ! (length level - 1)] else next, n'))"

text \<open>The outer loop \<^verbatim>\<open>for len(level) > 1\<close>.\<close>

function buildLoop :: "HashStrategy \<Rightarrow> heap \<Rightarrow> nat list \<Rightarrow> int \<Rightarrow> heap \<times> nat list \<times> int" where
  "buildLoop hash H level n =
     (if length level > 1
      then (case nextLevel hash level (H, n) of (H', next, n') \<Rightarrow> buildLoop hash H' next n')
      else (H, level, n))"
  by pat_completeness auto
termination
proof (relation "measure (\<lambda>(hash, H, level, n). length level)", goal_cases)
  case 1
  show ?case by simp
next
  case (2 hash H level n H' y nxt n')
  have step: "fst (snd (mergePair hash level i s)) = fst (snd s) @ [next_addr (fst s)]" for i s
    by (cases s) (simp add: mergePair_def new_node_def Let_def)
  have len: "length (fst (snd (fold (mergePair hash level) [0..<k] s))) = length (fst (snd s)) + k"
    for k s
    by (induction k) (simp_all add: step)
  from 2 have "nextLevel hash level (H, n) = (H', nxt, n')" by simp
  then have "length nxt \<le> length level div 2 + (if length level mod 2 \<noteq> 0 then 1 else 0)"
    using len [of "length level div 2" "(H, [], n)"]
    by (auto simp: nextLevel_def split: prod.splits if_splits)
  with 2(1) have "length nxt < length level"
    by (cases "length level mod 2 = 0") (simp_all, presburger+)
  with \<open>nextLevel hash level (H, n) = (H', nxt, n')\<close> show ?case by simp
qed

declare buildLoop.simps [simp del]

text \<open>
  \<^verbatim>\<open>buildMerkleTree\<close>. The result is the store together with the tree pointer; a nil
  tree is \<open>None\<close>. The outer \<open>None\<close> is a call that does not return: with a nil
  strategy and at least one item, \<^verbatim>\<open>hash.HashLeaf\<close> panics.
\<close>

definition buildMerkleTree ::
  "Leaf list \<Rightarrow> HashStrategy option \<Rightarrow> (heap \<times> MerkleTree option) option" where
  "buildMerkleTree data hash =
     (if length data = 0 then Some (empty_heap, None)
      else case hash of
        None \<Rightarrow> None
      | Some hs \<Rightarrow>
          (let (H0, level) = leafLevel hs data empty_heap;
               leaves = level;
               (H, level', n) = buildLoop hs H0 level (int (length level))
           in Some (H, Some \<lparr>tree_root = Some (level' ! 0), tree_n = n,
                              tree_leaves = leaves, tree_hashStrategy = Some hs\<rparr>)))"

definition BuildMerkleTree :: "Leaf list \<Rightarrow> (heap \<times> MerkleTree option) option" where
  "BuildMerkleTree data = buildMerkleTree data (Some defaultHashStrategy)"

definition BuildMerkleTreeWithHashStrategy ::
  "Leaf list \<Rightarrow> HashStrategy option \<Rightarrow> (heap \<times> MerkleTree option) option" where
  "BuildMerkleTreeWithHashStrategy data hash = buildMerkleTree data hash"

section \<open>The methods of a tree\<close>

definition Root :: "heap \<Rightarrow> MerkleTree option \<Rightarrow> byte list" where
  "Root H m =
     (case m of
        None \<Rightarrow> []
      | Some t \<Rightarrow> (case tree_root t of None \<Rightarrow> [] | Some r \<Rightarrow> node_h (cells H r)))"

definition Len :: "MerkleTree option \<Rightarrow> int" where
  "Len m = (case m of None \<Rightarrow> - 1 | Some t \<Rightarrow> tree_n t)"

text \<open>
  \<^verbatim>\<open>Node.verify\<close> recurses through the child pointers, which a node graph assembled by
  hand may close into a cycle; \<open>None\<close> is the call that never returns. The conjunction
  \<^verbatim>\<open>&&\<close> evaluates from left to right and stops at the first false operand.
\<close>

partial_function (option) verify :: "heap \<Rightarrow> HashStrategy \<Rightarrow> nat \<Rightarrow> bool option" where
  "verify H hasher a =
     (case node_left (cells H a) of
        Some l \<Rightarrow>
          (case node_right (cells H a) of
             Some r \<Rightarrow>
               (let hash = HashInternal hasher (node_h (cells H l)) (node_h (cells H r))
                in if node_h (cells H a) = hash
                   then Option.bind (verify H hasher l)
                          (\<lambda>ok. if ok then verify H hasher r else Some False)
                   else Some False)
           | None \<Rightarrow> Some False)
      | None \<Rightarrow>
          (case node_right (cells H a) of
             None \<Rightarrow> Some True
           | Some r \<Rightarrow> Some False))"

definition isLeft :: "heap \<Rightarrow> nat \<Rightarrow> bool" where
  "isLeft H a =
     (case node_parent (cells H a) of
        None \<Rightarrow> False
      | Some p \<Rightarrow> node_left (cells H p) = Some a)"

definition Verify :: "heap \<Rightarrow> MerkleTree option \<Rightarrow> bool option" where
  "Verify H m =
     (case m of
        None \<Rightarrow> Some False
      | Some t \<Rightarrow>
          (case tree_root t of
             None \<Rightarrow> Some False
           | Some r \<Rightarrow>
               (case tree_hashStrategy t of
                  None \<Rightarrow> Some False
                | Some hs \<Rightarrow> verify H hs r)))"

text \<open>
  Go errors are \<^verbatim>\<open>errors.New\<close> of a message, or nil: an optional string. A result
  \<open>None\<close> of a method is a call that does not return a value: \<^verbatim>\<open>VerifyExists\<close> on a
  nil tree or a tree without strategy dereferences nil and panics, and it does not
  return where \<^verbatim>\<open>Verify\<close> does not.
\<close>

definition VerifyExists ::
  "heap \<Rightarrow> MerkleTree option \<Rightarrow> Leaf \<Rightarrow> (nat option \<times> string option) option" where
  "VerifyExists H m x =
     (case m of
        None \<Rightarrow> None
      | Some t \<Rightarrow>
          (case tree_hashStrategy t of
             None \<Rightarrow> None
           | Some hs \<Rightarrow>
               (let hash = HashLeaf hs (Bytes x);
                    (inLeaves, node) =
                       fold (\<lambda>l (inLeaves, node).
                               if hash = node_h (cells H l) then (True, Some l)
                               else (inLeaves, node))
                            (tree_leaves t) (False, None)
                in if \<not> inLeaves then Some (node, Some ''not in tree'')
                   else (case Verify H m of
                           None \<Rightarrow> None
                         | Some ok \<Rightarrow>
                             if \<not> ok then Some (node, Some ''unable to verify tree'')
                             else Some (node, None)))))"

text \<open>
  The loop of \<^verbatim>\<open>Proof\<close>, from a node up through the parent pointers. Reading the hash
  of a nil sibling panics, and a parent chain closed into a cycle never ends: both
  are \<open>None\<close>.
\<close>

partial_function (option) proofLoop ::
  "heap \<Rightarrow> nat \<Rightarrow> byte list list \<Rightarrow> bool list \<Rightarrow> (byte list list \<times> bool list) option" where
  "proofLoop H node siblings left =
     (case node_parent (cells H node) of
        None \<Rightarrow> Some (siblings, left)
      | Some p \<Rightarrow>
          if isLeft H node
          then (case node_right (cells H p) of
                  None \<Rightarrow> None
                | Some r \<Rightarrow> proofLoop H p (siblings @ [node_h (cells H r)]) (left @ [False]))
          else (case node_left (cells H p) of
                  None \<Rightarrow> None
                | Some l \<Rightarrow> proofLoop H p (siblings @ [node_h (cells H l)]) (left @ [True])))"

definition Proof ::
  "heap \<Rightarrow> MerkleTree option \<Rightarrow> Leaf \<Rightarrow> (Proof option \<times> string option) option" where
  "Proof H m x =
     (case m of
        None \<Rightarrow> Some (None, Some ''nil tree'')
      | Some t \<Rightarrow>
          (case VerifyExists H m x of
             None \<Rightarrow> None
           | Some (node, Some err) \<Rightarrow> Some (None, Some err)
           | Some (None, None) \<Rightarrow> None
           | Some (Some a, None) \<Rightarrow>
               (case proofLoop H a [] [] of
                  None \<Rightarrow> None
                | Some (siblings, left) \<Rightarrow>
                    Some (Some \<lparr>proof_root = Root H m, proof_siblings = siblings,
                                proof_left = left,
                                proof_hashStrategy = tree_hashStrategy t\<rparr>, None))))"

section \<open>Verifying a proof\<close>

definition VerifyProof :: "Leaf \<Rightarrow> Proof option \<Rightarrow> string option" where
  "VerifyProof x p =
     (case p of
        None \<Rightarrow> Some ''no proof/hash strategy''
      | Some pr \<Rightarrow>
          (case proof_hashStrategy pr of
             None \<Rightarrow> Some ''no proof/hash strategy''
           | Some hs \<Rightarrow>
               if length (proof_siblings pr) \<noteq> length (proof_left pr)
               then Some ''proof lengths mismatch''
               else (let hash = fold (\<lambda>i hash.
                                        if proof_left pr ! i
                                        then HashInternal hs (proof_siblings pr ! i) hash
                                        else HashInternal hs hash (proof_siblings pr ! i))
                                     [0..<length (proof_left pr)] (HashLeaf hs (Bytes x))
                     in if hash \<noteq> proof_root pr then Some ''root does not match''
                        else None)))"

section \<open>Notions used to state and prove the properties\<close>

text \<open>
  A node is locally sound when it is a leaf, or has both children and stores the
  internal hash of their hashes.
\<close>

definition node_ok :: "HashStrategy \<Rightarrow> heap \<Rightarrow> nat \<Rightarrow> bool" where
  "node_ok hs H a =
     (case node_left (cells H a) of
        Some l \<Rightarrow>
          (case node_right (cells H a) of
             Some r \<Rightarrow>
               node_h (cells H a) = HashInternal hs (node_h (cells H l)) (node_h (cells H r))
           | None \<Rightarrow> False)
      | None \<Rightarrow> node_right (cells H a) = None)"

text \<open>
  The invariant of the builder. All allocated nodes are locally sound, children were
  allocated before their parent, a parent pointer leads to a node that has the pointing
  node as a child, and the nodes without parent are exactly the set \<open>R\<close> (the
  current level).
\<close>

definition forest :: "HashStrategy \<Rightarrow> heap \<Rightarrow> nat set \<Rightarrow> bool" where
  "forest hs H R \<longleftrightarrow>
     (\<forall>a < next_addr H. node_ok hs H a \<and>
         (\<forall>c. node_left (cells H a) = Some c \<or> node_right (cells H a) = Some c \<longrightarrow> c < a)) \<and>
     (\<forall>a < next_addr H. \<forall>p. node_parent (cells H a) = Some p \<longrightarrow>
         a < p \<and> p < next_addr H \<and>
         (node_left (cells H p) = Some a \<or> node_right (cells H p) = Some a)) \<and>
     R = {a. a < next_addr H \<and> node_parent (cells H a) = None}"

text \<open>The store after one pass of the inner loop body on the nodes \<open>l\<close> and \<open>r\<close>.\<close>

definition link :: "HashStrategy \<Rightarrow> heap \<Rightarrow> nat \<Rightarrow> nat \<Rightarrow> heap" where
  "link hs H l r =
     set_parent (set_parent (fst (new_node H
        \<lparr>node_h = HashInternal hs (node_h (cells H l)) (node_h (cells H r)),
         node_left = Some l, node_right = Some r, node_parent = None\<rparr>)) l (Some (next_addr H)))
       r (Some (next_addr H))"

text \<open>A later store keeps the hashes of the nodes of an earlier one.\<close>

definition ext :: "heap \<Rightarrow> heap \<Rightarrow> bool" where
  "ext H H' \<longleftrightarrow>
     next_addr H \<le> next_addr H' \<and>
     (\<forall>a < next_addr H. node_h (cells H' a) = node_h (cells H a))"

text \<open>
  The recomputation of a root as the specification words it: starting from a hash, for
  each pair of a sibling and its direction flag in leaf-to-root order, the internal hash
  with the sibling on the left when the flag is set and on the right otherwise.
\<close>

definition recompute ::
  "HashStrategy \<Rightarrow> byte list list \<Rightarrow> bool list \<Rightarrow> byte list \<Rightarrow> byte list" where
  "recompute hs siblings left h0 =
     fold (\<lambda>(sib, isLeft) hash.
             if isLeft then HashInternal hs sib hash else HashInternal hs hash sib)
          (zip siblings left) h0"

text \<open>The retained leaves whose stored hash equals the leaf hash of an item, in order.\<close>

definition matches :: "heap \<Rightarrow> HashStrategy \<Rightarrow> Leaf \<Rightarrow> nat list \<Rightarrow> nat list" where
  "matches H hs x leaves = filter (\<lambda>l. HashLeaf hs (Bytes x) = node_h (cells H l)) leaves"

definition power_of_two :: "nat \<Rightarrow> bool" where
  "power_of_two n \<longleftrightarrow> (\<exists>k. n = 2 ^ k)"

text \<open>
  A custom strategy: the tag bytes of the default strategy, with the identity in place
  of the digest. Its leaf hashes start with 0x00 and its internal hashes with 0x01.
\<close>

definition taggedStrategy :: HashStrategy where
  "taggedStrategy =
     \<lparr>HashLeaf = (\<lambda>l. [0x00] @ l), HashInternal = (\<lambda>l r. ([0x01] @ l) @ r)\<rparr>"

text \<open>
  The node graph below a node: \<open>child_rel\<close> relates a child to its parent through the
  child pointers, and \<open>nodes_of H r\<close> is every node reached from \<open>r\<close> through them.
\<close>

definition child_rel :: "heap \<Rightarrow> (nat \<times> nat) set" where
  "child_rel H =
     {(c, a). node_left (cells H a) = Some c \<or> node_right (cells H a) = Some c}"

definition nodes_of :: "heap \<Rightarrow> nat \<Rightarrow> nat set" where
  "nodes_of H r = {a. (a, r) \<in> (child_rel H)\<^sup>*}"

section \<open>The builder keeps its invariant\<close>

lemma mergePair_next:
  "mergePair hash level i (H, nxt, n) = (H', nxt', n') \<Longrightarrow>
   nxt' = nxt @ [next_addr H] \<and> n' = n + 1"
  by (auto simp: mergePair_def new_node_def Let_def split: prod.splits)

lemma fold_mergePair_length:
  "fold (mergePair hash level) [0..<k] (H, nxt, n) = (H', nxt', n') \<Longrightarrow>
   length nxt' = length nxt + k \<and> n' = n + int k"
proof (induction k arbitrary: H' nxt' n')
  case 0
  then show ?case by simp
next
  case (Suc k)
  obtain H1 nxt1 n1 where f: "fold (mergePair hash level) [0..<k] (H, nxt, n) = (H1, nxt1, n1)"
    by (cases "fold (mergePair hash level) [0..<k] (H, nxt, n)") auto
  from Suc.IH [OF f] have ih: "length nxt1 = length nxt + k" "n1 = n + int k" by simp_all
  from Suc.prems f have "mergePair hash level k (H1, nxt1, n1) = (H', nxt', n')"
    by simp
  from mergePair_next [OF this] ih show ?case by simp
qed

lemma nextLevel_length:
  "nextLevel hash level (H, n) = (H', nxt, n') \<Longrightarrow> length nxt = (length level + 1) div 2"
proof -
  assume a: "nextLevel hash level (H, n) = (H', nxt, n')"
  obtain H1 nxt1 n1 where
    f: "fold (mergePair hash level) [0..<length level div 2] (H, [], n) = (H1, nxt1, n1)"
    by (cases "fold (mergePair hash level) [0..<length level div 2] (H, [], n)") auto
  from fold_mergePair_length [OF f] have "length nxt1 = length level div 2" by simp
  moreover from a f have
    "nxt = (if length level mod 2 \<noteq> 0 then nxt1 @ [level ! (length level - 1)] else nxt1)"
    by (simp add: nextLevel_def)
  ultimately show ?thesis by (auto; presburger)
qed

lemma mergePair_link:
  "mergePair hs level i (H, nxt, n) =
     (link hs H (level ! (2 * i)) (level ! (2 * i + 1)), nxt @ [next_addr H], n + 1)"
  by (simp add: mergePair_def link_def new_node_def Let_def)

lemma next_addr_link [simp]: "next_addr (link hs H l r) = Suc (next_addr H)"
  by (simp add: link_def new_node_def set_parent_def)

lemma link_fields:
  assumes "l < next_addr H" "r < next_addr H"
  shows "node_h (cells (link hs H l r) a) =
           (if a = next_addr H then HashInternal hs (node_h (cells H l)) (node_h (cells H r))
            else node_h (cells H a))"
    and "node_left (cells (link hs H l r) a) =
           (if a = next_addr H then Some l else node_left (cells H a))"
    and "node_right (cells (link hs H l r) a) =
           (if a = next_addr H then Some r else node_right (cells H a))"
    and "node_parent (cells (link hs H l r) a) =
           (if a = l \<or> a = r then Some (next_addr H)
            else if a = next_addr H then None else node_parent (cells H a))"
  using assms by (auto simp: link_def new_node_def set_parent_def)


lemma forest_okD: "forest hs H R \<Longrightarrow> a < next_addr H \<Longrightarrow> node_ok hs H a"
  unfolding forest_def by blast


lemma forest_childD:
  "forest hs H R \<Longrightarrow> a < next_addr H \<Longrightarrow>
   node_left (cells H a) = Some c \<or> node_right (cells H a) = Some c \<Longrightarrow> c < a"
  unfolding forest_def by blast

lemma forest_parentD:
  "forest hs H R \<Longrightarrow> a < next_addr H \<Longrightarrow> node_parent (cells H a) = Some p \<Longrightarrow>
   a < p \<and> p < next_addr H \<and> (node_left (cells H p) = Some a \<or> node_right (cells H p) = Some a)"
  unfolding forest_def by blast

lemma forest_rootsD:
  "forest hs H R \<Longrightarrow> R = {a. a < next_addr H \<and> node_parent (cells H a) = None}"
  unfolding forest_def by (elim conjE)

lemma forest_rootD:
  "forest hs H R \<Longrightarrow> a \<in> R \<Longrightarrow> a < next_addr H \<and> node_parent (cells H a) = None"
  using forest_rootsD [of hs H R] by blast

lemma forestI:
  assumes "\<And>a. a < next_addr H \<Longrightarrow> node_ok hs H a"
    and "\<And>a c. a < next_addr H \<Longrightarrow>
           node_left (cells H a) = Some c \<or> node_right (cells H a) = Some c \<Longrightarrow> c < a"
    and "\<And>a p. a < next_addr H \<Longrightarrow> node_parent (cells H a) = Some p \<Longrightarrow>
           a < p \<and> p < next_addr H \<and>
           (node_left (cells H p) = Some a \<or> node_right (cells H p) = Some a)"
    and "R = {a. a < next_addr H \<and> node_parent (cells H a) = None}"
  shows "forest hs H R"
  unfolding forest_def using assms by blast


lemma forest_link:
  assumes F: "forest hs H R" and "l \<in> R" "r \<in> R"
  shows "forest hs (link hs H l r) (R - {l, r} \<union> {next_addr H})"
proof (rule forestI)
  from assms have lr: "l < next_addr H" "r < next_addr H"
    by (auto dest: forest_rootD)
  note lf = link_fields [OF lr]
  note R = forest_rootsD [OF F]
  show "node_ok hs (link hs H l r) a" if "a < next_addr (link hs H l r)" for a
  proof (cases "a = next_addr H")
    case True
    then show ?thesis using lr by (simp add: node_ok_def lf)
  next
    case False
    with that have a: "a < next_addr H" by simp
    have "\<And>c. node_left (cells H a) = Some c \<Longrightarrow> c \<noteq> next_addr H"
      "\<And>c. node_right (cells H a) = Some c \<Longrightarrow> c \<noteq> next_addr H"
      using forest_childD [OF F a] a by fastforce+
    with forest_okD [OF F a] False show ?thesis
      by (simp add: node_ok_def lf split: option.splits)
  qed
  show "c < a" if "a < next_addr (link hs H l r)"
    "node_left (cells (link hs H l r) a) = Some c \<or> node_right (cells (link hs H l r) a) = Some c"
    for a c
  proof (cases "a = next_addr H")
    case True
    with that(2) lr show ?thesis by (auto simp: lf)
  next
    case False
    with that have "a < next_addr H"
      "node_left (cells H a) = Some c \<or> node_right (cells H a) = Some c"
      by (simp_all add: lf)
    then show ?thesis by (rule forest_childD [OF F])
  qed
  show "a < p \<and> p < next_addr (link hs H l r) \<and>
           (node_left (cells (link hs H l r) p) = Some a \<or>
            node_right (cells (link hs H l r) p) = Some a)"
    if "a < next_addr (link hs H l r)" "node_parent (cells (link hs H l r) a) = Some p" for a p
  proof (cases "a = l \<or> a = r")
    case True
    with that(2) have "p = next_addr H" by (simp add: lf)
    with True lr show ?thesis by (auto simp: lf)
  next
    case False
    with that(2) have "a \<noteq> next_addr H" by (auto simp: lf)
    with that False have a: "a < next_addr H" "node_parent (cells H a) = Some p"
      by (simp_all add: lf)
    from forest_parentD [OF F a] show ?thesis by (auto simp: lf)
  qed
  show "R - {l, r} \<union> {next_addr H} =
           {a. a < next_addr (link hs H l r) \<and> node_parent (cells (link hs H l r) a) = None}"
    apply (subst R)
    using lr by (auto simp: lf less_Suc_eq)
qed


lemma ext_refl: "ext H H"
  by (simp add: ext_def)

lemma ext_trans: "ext H1 H2 \<Longrightarrow> ext H2 H3 \<Longrightarrow> ext H1 H3"
  by (auto simp: ext_def)

lemma ext_link: "l < next_addr H \<Longrightarrow> r < next_addr H \<Longrightarrow> ext H (link hs H l r)"
  by (simp add: ext_def link_fields)

lemma fold_mergePair_forest:
  assumes F: "forest hs H (set level)" and D: "distinct level"
  shows "2 * k \<le> length level \<Longrightarrow>
     fold (mergePair hs level) [0..<k] (H, [], n) = (H', nxt, n') \<Longrightarrow>
     forest hs H' (set nxt \<union> set (drop (2 * k) level)) \<and>
     distinct (nxt @ drop (2 * k) level) \<and> ext H H'"
proof (induction k arbitrary: H' nxt n')
  case 0
  with F D show ?case by (simp add: ext_refl)
next
  case (Suc k)
  obtain H1 nxt1 n1 where f: "fold (mergePair hs level) [0..<k] (H, [], n) = (H1, nxt1, n1)"
    by (cases "fold (mergePair hs level) [0..<k] (H, [], n)") auto
  from Suc.prems have k: "2 * k \<le> length level" by simp
  from Suc.IH [OF k f] have
    F1: "forest hs H1 (set nxt1 \<union> set (drop (2 * k) level))" and
    D1: "distinct (nxt1 @ drop (2 * k) level)" and E1: "ext H H1"
    by simp_all
  define l where "l = level ! (2 * k)"
  define r where "r = level ! (2 * k + 1)"
  define rest where "rest = drop (2 * Suc k) level"
  from Suc.prems(1) have dr: "drop (2 * k) level = l # r # rest"
    unfolding l_def r_def rest_def
    by (simp add: Cons_nth_drop_Suc)
  from Suc.prems(2) f have "mergePair hs level k (H1, nxt1, n1) = (H', nxt, n')"
    by simp
  then have H': "H' = link hs H1 l r" and nxt: "nxt = nxt1 @ [next_addr H1]"
    by (simp_all add: mergePair_link l_def r_def)
  have lR: "l \<in> set nxt1 \<union> set (drop (2 * k) level)"
    and rR: "r \<in> set nxt1 \<union> set (drop (2 * k) level)"
    by (simp_all add: dr)
  from forest_rootD [OF F1 lR] forest_rootD [OF F1 rR]
  have lr: "l < next_addr H1" "r < next_addr H1" by simp_all
  have fresh: "next_addr H1 \<notin> set nxt1 \<union> set (drop (2 * k) level)"
    using forest_rootD [OF F1, of "next_addr H1"] by blast
  have eq: "set nxt1 \<union> set (drop (2 * k) level) - {l, r} \<union> {next_addr H1} =
            set nxt \<union> set rest"
    using D1 by (auto simp: dr nxt)
  from forest_link [OF F1 lR rR] have "forest hs H' (set nxt \<union> set rest)"
    by (simp only: eq H')
  moreover have "distinct (nxt @ rest)"
    using D1 fresh by (auto simp: dr nxt)
  moreover have "ext H H'"
    using E1 ext_link [OF lr, of hs] by (auto simp: H' intro: ext_trans)
  ultimately show ?case by (simp add: rest_def)
qed

lemma nextLevel_forest:
  assumes F: "forest hs H (set level)" and D: "distinct level"
    and N: "nextLevel hs level (H, n) = (H', nxt, n')"
  shows "forest hs H' (set nxt) \<and> distinct nxt \<and> ext H H' \<and>
         n' + int (length nxt) = n + int (length level)"
proof -
  obtain H1 nxt1 n1 where
    f: "fold (mergePair hs level) [0..<length level div 2] (H, [], n) = (H1, nxt1, n1)"
    by (cases "fold (mergePair hs level) [0..<length level div 2] (H, [], n)") auto
  have k: "2 * (length level div 2) \<le> length level" by simp
  from fold_mergePair_forest [OF F D k f] have
    F1: "forest hs H1 (set nxt1 \<union> set (drop (2 * (length level div 2)) level))" and
    D1: "distinct (nxt1 @ drop (2 * (length level div 2)) level)" and E1: "ext H H1"
    by simp_all
  from fold_mergePair_length [OF f] have
    len: "length nxt1 = length level div 2" and n1: "n1 = n + int (length level div 2)"
    by simp_all
  from N f have H': "H' = H1" and n': "n' = n1" and
    nxt: "nxt = (if length level mod 2 \<noteq> 0 then nxt1 @ [level ! (length level - 1)] else nxt1)"
    by (simp_all add: nextLevel_def)
  have dr: "drop (2 * (length level div 2)) level =
            (if length level mod 2 \<noteq> 0 then [level ! (length level - 1)] else [])"
  proof (cases "length level mod 2 = 0")
    case True
    then have "2 * (length level div 2) = length level" by presburger
    with True show ?thesis by simp
  next
    case False
    then have e: "2 * (length level div 2) = length level - 1" "length level - 1 < length level"
      by presburger+
    have "drop (length level - 1) level = [level ! (length level - 1)]"
      using e(2) by (metis Cons_nth_drop_Suc Suc_diff_1 drop_all less_imp_diff_less
          linorder_not_less not_less_eq order_refl zero_less_diff)
    with False e show ?thesis by simp
  qed
  have "nxt = nxt1 @ drop (2 * (length level div 2)) level"
    by (simp add: nxt dr)
  with F1 D1 E1 have "forest hs H' (set nxt)" "distinct nxt" "ext H H'"
    by (simp_all add: H')
  moreover have "n' + int (length nxt) = n + int (length level)"
    unfolding n' n1 nxt using len by (auto; presburger)
  ultimately show ?thesis by simp
qed


lemma buildLoop_forest:
  "forest hs H (set level) \<Longrightarrow> distinct level \<Longrightarrow> level \<noteq> [] \<Longrightarrow>
   buildLoop hs H level n = (H', level', n') \<Longrightarrow>
   forest hs H' (set level') \<and> length level' = 1 \<and> ext H H' \<and>
   n' + 1 = n + int (length level)"
proof (induction hs H level n rule: buildLoop.induct)
  case (1 hash H level n)
  show ?case
  proof (cases "1 < length level")
    case False
    with "1.prems" have "length level = 1"
      by (cases level) auto
    with "1.prems" False show ?thesis
      by (simp add: buildLoop.simps ext_refl)
  next
    case True
    obtain H1 nxt n1 where N: "nextLevel hash level (H, n) = (H1, nxt, n1)"
      by (cases "nextLevel hash level (H, n)") auto
    from nextLevel_forest [OF "1.prems"(1,2) N] have
      F1: "forest hash H1 (set nxt)" and D1: "distinct nxt" and E1: "ext H H1" and
      c: "n1 + int (length nxt) = n + int (length level)"
      by simp_all
    from nextLevel_length [OF N] True have ne: "nxt \<noteq> []" by auto
    from "1.prems"(4) True N have B: "buildLoop hash H1 nxt n1 = (H', level', n')"
      by (simp add: buildLoop.simps [of hash H level n])
    from "1.IH" [OF True N [symmetric] refl F1 D1 ne B] have
      "forest hash H' (set level')" "length level' = 1" "ext H1 H'"
      "n' + 1 = n1 + int (length nxt)"
      by simp_all
    with E1 c show ?thesis by (auto intro: ext_trans)
  qed
qed

lemma leafLevel_snoc:
  "leafLevel hs (data @ [x]) H0 =
     (case leafLevel hs data H0 of (H, level) \<Rightarrow>
        (fst (new_node H \<lparr>node_h = HashLeaf hs (Bytes x), node_left = None,
                            node_right = None, node_parent = None\<rparr>),
         level @ [next_addr H]))"
  by (simp add: leafLevel_def new_node_def split: prod.splits)

lemma leafLevel_empty:
  "leafLevel hs data empty_heap = (H, level) \<Longrightarrow>
   level = [0..<length data] \<and> next_addr H = length data \<and>
   (\<forall>i. cells H i =
      (if i < length data
       then \<lparr>node_h = HashLeaf hs (Bytes (data ! i)), node_left = None,
             node_right = None, node_parent = None\<rparr>
       else \<lparr>node_h = [], node_left = None, node_right = None, node_parent = None\<rparr>))"
proof (induction data arbitrary: H level rule: rev_induct)
  case Nil
  then show ?case by (auto simp: leafLevel_def empty_heap_def)
next
  case (snoc x xs)
  obtain H1 level1 where L: "leafLevel hs xs empty_heap = (H1, level1)"
    by (cases "leafLevel hs xs empty_heap") auto
  note ih = snoc.IH [OF L]
  from snoc.prems L have
    H: "H = fst (new_node H1 \<lparr>node_h = HashLeaf hs (Bytes x), node_left = None,
                            node_right = None, node_parent = None\<rparr>)"
    and level: "level = level1 @ [next_addr H1]"
    by (simp_all add: leafLevel_snoc)
  from ih show ?case
    by (auto simp: H level new_node_def nth_append)
qed

lemma leafLevel_forest:
  assumes "leafLevel hs data empty_heap = (H, level)"
  shows "forest hs H (set level)" and "distinct level"
proof -
  note l = leafLevel_empty [OF assms]
  show "distinct level" using l by simp
  show "forest hs H (set level)"
    by (rule forestI) (use l in \<open>auto simp: node_ok_def\<close>)
qed


lemma buildMerkleTree_forest:
  assumes "data \<noteq> []"
  shows "\<exists>H r. buildMerkleTree data (Some hs) =
            Some (H, Some \<lparr>tree_root = Some r, tree_n = 2 * int (length data) - 1,
                           tree_leaves = [0..<length data], tree_hashStrategy = Some hs\<rparr>) \<and>
          forest hs H {r} \<and> length data \<le> next_addr H \<and>
          (\<forall>i < length data. node_h (cells H i) = HashLeaf hs (Bytes (data ! i)))"
proof -
  obtain H0 level where L: "leafLevel hs data empty_heap = (H0, level)"
    by (cases "leafLevel hs data empty_heap") auto
  note l0 = leafLevel_empty [OF L]
  obtain H level' n where B: "buildLoop hs H0 level (int (length level)) = (H, level', n)"
    by (cases "buildLoop hs H0 level (int (length level))") auto
  from l0 assms have ne: "level \<noteq> []" by auto
  from buildLoop_forest [OF leafLevel_forest [OF L] ne B] have
    F: "forest hs H (set level')" and one: "length level' = 1" and E: "ext H0 H" and
    n: "n + 1 = int (length level) + int (length level)"
    by simp_all
  from one obtain r where r: "level' = [r]"
    by (cases level') auto
  have "buildMerkleTree data (Some hs) =
          Some (H, Some \<lparr>tree_root = Some r, tree_n = 2 * int (length data) - 1,
                         tree_leaves = [0..<length data], tree_hashStrategy = Some hs\<rparr>)"
    using assms L B r n l0 by (simp add: buildMerkleTree_def)
  moreover from F r have "forest hs H {r}" by simp
  moreover from E l0 have "length data \<le> next_addr H"
    "\<forall>i < length data. node_h (cells H i) = HashLeaf hs (Bytes (data ! i))"
    by (simp_all add: ext_def)
  ultimately show ?thesis by blast
qed

lemma verify_forest:
  assumes F: "forest hs H R"
  shows "a < next_addr H \<Longrightarrow> verify H hs a = Some True"
proof (induction a rule: less_induct)
  case (less a)
  note ok = forest_okD [OF F less.prems]
  show ?case
  proof (cases "node_left (cells H a)")
    case None
    with ok show ?thesis
      by (subst verify.simps) (simp add: node_ok_def)
  next
    case (Some l)
    with ok obtain r where r: "node_right (cells H a) = Some r"
      and h: "node_h (cells H a) = HashInternal hs (node_h (cells H l)) (node_h (cells H r))"
      by (auto simp: node_ok_def split: option.splits)
    from forest_childD [OF F less.prems] Some r have "l < a" "r < a" by blast+
    with less have "verify H hs l = Some True" "verify H hs r = Some True"
      by simp_all
    with Some r h show ?thesis
      by (subst verify.simps) simp
  qed
qed

lemma fold_index:
  "fold (\<lambda>i. g (ps ! i)) [0..<length ps] h0 = fold g ps h0"
proof (induction ps arbitrary: h0 rule: rev_induct)
  case Nil
  show ?case by simp
next
  case (snoc p ps)
  have "fold (\<lambda>i. g ((ps @ [p]) ! i)) [0..<length ps] h0 = fold (\<lambda>i. g (ps ! i)) [0..<length ps] h0"
    by (rule fold_cong) (auto simp: nth_append)
  with snoc show ?case by simp
qed

lemma recompute_index:
  assumes "length siblings = length left"
  shows "fold (\<lambda>i hash. if left ! i then HashInternal hs (siblings ! i) hash
                          else HashInternal hs hash (siblings ! i))
              [0..<length left] h0 = recompute hs siblings left h0"
proof -
  let ?g = "\<lambda>(sib, isLeft) hash.
              if isLeft then HashInternal hs sib hash else HashInternal hs hash sib"
  have "fold (\<lambda>i hash. if left ! i then HashInternal hs (siblings ! i) hash
                          else HashInternal hs hash (siblings ! i)) [0..<length left] h0 =
        fold (\<lambda>i. ?g (zip siblings left ! i)) [0..<length (zip siblings left)] h0"
    using assms by (intro fold_cong) auto
  also have "\<dots> = fold ?g (zip siblings left) h0"
    by (rule fold_index)
  finally show ?thesis by (simp add: recompute_def)
qed

lemma recompute_Cons:
  "recompute hs (s # siblings) (b # left) h0 =
     recompute hs siblings left (if b then HashInternal hs s h0 else HashInternal hs h0 s)"
  by (simp add: recompute_def)

lemma recompute_Nil: "recompute hs [] [] h0 = h0"
  by (simp add: recompute_def)

lemma proofLoop_forest:
  assumes F: "forest hs H {root}"
  shows "a < next_addr H \<Longrightarrow>
    \<exists>siblings left. length siblings = length left \<and>
       (\<forall>s0 l0. proofLoop H a s0 l0 = Some (s0 @ siblings, l0 @ left)) \<and>
       recompute hs siblings left (node_h (cells H a)) = node_h (cells H root)"
proof (induction "next_addr H - a" arbitrary: a rule: less_induct)
  case less
  show ?case
  proof (cases "node_parent (cells H a)")
    case None
    with less.prems forest_rootsD [OF F] have "a = root" by blast
    moreover from None have "\<And>s0 l0. proofLoop H a s0 l0 = Some (s0, l0)"
      by (subst proofLoop.simps) simp
    ultimately show ?thesis
      by (intro exI [of _ "[]"]) (simp add: recompute_Nil)
  next
    case (Some p)
    from forest_parentD [OF F less.prems Some] have
      p: "a < p" "p < next_addr H" and
      lr: "node_left (cells H p) = Some a \<or> node_right (cells H p) = Some a"
      by simp_all
    from forest_okD [OF F p(2)] lr obtain l r where
      l: "node_left (cells H p) = Some l" and r: "node_right (cells H p) = Some r" and
      h: "node_h (cells H p) = HashInternal hs (node_h (cells H l)) (node_h (cells H r))"
      by (auto simp: node_ok_def split: option.splits)
    from p have "next_addr H - p < next_addr H - a" by simp
    from less.hyps [OF this p(2)] obtain ss ls where
      len: "length ss = length ls" and
      run: "\<And>s0 l0. proofLoop H p s0 l0 = Some (s0 @ ss, l0 @ ls)" and
      rec: "recompute hs ss ls (node_h (cells H p)) = node_h (cells H root)"
      by blast
    show ?thesis
    proof (cases "l = a")
      case True
      have "\<And>s0 l0. proofLoop H a s0 l0 =
              Some (s0 @ node_h (cells H r) # ss, l0 @ False # ls)"
        by (subst proofLoop.simps) (simp add: Some isLeft_def l r True run)
      moreover have "recompute hs (node_h (cells H r) # ss) (False # ls) (node_h (cells H a)) =
                     node_h (cells H root)"
        using rec h True by (simp add: recompute_Cons)
      ultimately show ?thesis
        using len by (intro exI [of _ "node_h (cells H r) # ss"] exI [of _ "False # ls"]) simp
    next
      case False
      with lr l r have ra: "r = a" by simp
      have "\<And>s0 l0. proofLoop H a s0 l0 =
              Some (s0 @ node_h (cells H l) # ss, l0 @ True # ls)"
        by (subst proofLoop.simps) (simp add: Some isLeft_def l r False run)
      moreover have "recompute hs (node_h (cells H l) # ss) (True # ls) (node_h (cells H a)) =
                     node_h (cells H root)"
        using rec h ra by (simp add: recompute_Cons)
      ultimately show ?thesis
        using len by (intro exI [of _ "node_h (cells H l) # ss"] exI [of _ "True # ls"]) simp
    qed
  qed
qed


lemma scan_leaves:
  "fold (\<lambda>l (inLeaves, node). if hash = node_h (cells H l) then (True, Some l)
                               else (inLeaves, node)) leaves (False, None) =
   (filter (\<lambda>l. hash = node_h (cells H l)) leaves \<noteq> [],
    if filter (\<lambda>l. hash = node_h (cells H l)) leaves = [] then None
    else Some (last (filter (\<lambda>l. hash = node_h (cells H l)) leaves)))"
  by (induction leaves rule: rev_induct) simp_all

lemma VerifyExists_eq:
  assumes "tree_hashStrategy t = Some hs"
  shows "VerifyExists H (Some t) x =
     (if matches H hs x (tree_leaves t) = [] then Some (None, Some ''not in tree'')
      else case Verify H (Some t) of
             None \<Rightarrow> None
           | Some ok \<Rightarrow>
               if ok then Some (Some (last (matches H hs x (tree_leaves t))), None)
               else Some (Some (last (matches H hs x (tree_leaves t))),
                          Some ''unable to verify tree''))"
  using assms unfolding VerifyExists_def Let_def scan_leaves matches_def
  by (simp split: option.splits)

lemma roundtrip:
  assumes ne: "data \<noteq> []" and x: "x \<in> set data"
  shows "\<exists>H t p. buildMerkleTree data (Some hs) = Some (H, Some t) \<and>
           Proof H (Some t) x = Some (Some p, None) \<and> VerifyProof x (Some p) = None"
proof -
  from buildMerkleTree_forest [OF ne, of hs] obtain H r where
    B: "buildMerkleTree data (Some hs) =
          Some (H, Some \<lparr>tree_root = Some r, tree_n = 2 * int (length data) - 1,
                         tree_leaves = [0..<length data], tree_hashStrategy = Some hs\<rparr>)" and
    F: "forest hs H {r}" and n: "length data \<le> next_addr H" and
    lh: "\<forall>i < length data. node_h (cells H i) = HashLeaf hs (Bytes (data ! i))"
    by blast
  define t where "t = \<lparr>tree_root = Some r, tree_n = 2 * int (length data) - 1,
                         tree_leaves = [0..<length data], tree_hashStrategy = Some hs\<rparr>"
  define ms where "ms = matches H hs x (tree_leaves t)"
  from x obtain i where i: "i < length data" "data ! i = x"
    by (auto simp: in_set_conv_nth)
  with lh have "i \<in> set ms"
    by (auto simp: ms_def matches_def t_def)
  then have ms: "ms \<noteq> []" by auto
  then have "last ms \<in> set ms" by simp
  then have j: "last ms < length data"
    "node_h (cells H (last ms)) = HashLeaf hs (Bytes x)"
    by (auto simp: ms_def matches_def t_def)
  from forest_rootD [OF F, of r] have r: "r < next_addr H" by simp
  have V: "Verify H (Some t) = Some True"
    by (simp add: Verify_def t_def verify_forest [OF F r])
  have hs_t: "tree_hashStrategy t = Some hs" by (simp add: t_def)
  have VE: "VerifyExists H (Some t) x = Some (Some (last ms), None)"
    using ms V by (simp add: VerifyExists_eq [OF hs_t] ms_def [symmetric])
  from j n have "last ms < next_addr H" by simp
  from proofLoop_forest [OF F this] obtain ss ls where
    len: "length ss = length ls" and
    run: "proofLoop H (last ms) [] [] = Some (ss, ls)" and
    rec: "recompute hs ss ls (node_h (cells H (last ms))) = node_h (cells H r)"
    by fastforce
  define p where "p = \<lparr>proof_root = Root H (Some t), proof_siblings = ss, proof_left = ls,
                         proof_hashStrategy = tree_hashStrategy t\<rparr>"
  have P: "Proof H (Some t) x = Some (Some p, None)"
    by (simp add: Proof_def VE run p_def)
  have "VerifyProof x (Some p) = None"
    using len rec j(2)
    by (simp add: VerifyProof_def p_def t_def Root_def recompute_index)
  with B P show ?thesis unfolding t_def by blast
qed



section \<open>Digests and the tree of three items\<close>

text \<open>
  The digests of the tagged one-byte items "a", "b" and "c", and of the tag 0x01
  followed by "a" and "b", computed from the definition of \<open>HashSHA256\<close>.
\<close>

lemma sha_leaf_a:
  "HashSHA256 [0x00, 0x61] =
     [2, 42, 105, 121, 230, 218, 183, 170, 90, 228, 195, 229, 228, 95, 126, 151,
      113, 18, 167, 230, 53, 147, 130, 13, 190, 193, 236, 115, 138, 36, 249, 60]"
  by code_simp

lemma sha_leaf_b:
  "HashSHA256 [0x00, 0x62] =
     [87, 235, 53, 97, 93, 71, 243, 78, 199, 20, 202, 205, 245, 253, 116, 96,
      138, 94, 142, 16, 39, 36, 232, 11, 36, 178, 135, 192, 194, 123, 106, 49]"
  by code_simp

lemma sha_leaf_c:
  "HashSHA256 [0x00, 0x63] =
     [89, 127, 203, 49, 40, 45, 52, 101, 76, 32, 13, 52, 24, 252, 165, 112,
      92, 100, 142, 191, 50, 110, 199, 61, 141, 222, 241, 24, 65, 248, 118, 216]"
  by code_simp

lemma sha_internal_ab:
  "HashSHA256 [0x01, 0x61, 0x62] =
     [23, 4, 4, 224, 84, 64, 244, 80, 98, 196, 35, 5, 45, 90, 220, 251,
      44, 157, 84, 110, 207, 203, 32, 34, 214, 195, 74, 244, 116, 219, 175, 24]"
  by code_simp

lemma TestLeaf_abc:
  "TestLeaf ''a'' = [0x61]" "TestLeaf ''b'' = [0x62]" "TestLeaf ''c'' = [0x63]"
  by (simp_all add: TestLeaf_def)

lemma leaf_hashes_distinct:
  "HashLeaf defaultHashStrategy (Bytes (TestLeaf ''a'')) \<noteq>
   HashLeaf defaultHashStrategy (Bytes (TestLeaf ''b''))"
  "HashLeaf defaultHashStrategy (Bytes (TestLeaf ''a'')) \<noteq>
   HashLeaf defaultHashStrategy (Bytes (TestLeaf ''c''))"
  "HashLeaf defaultHashStrategy (Bytes (TestLeaf ''b'')) \<noteq>
   HashLeaf defaultHashStrategy (Bytes (TestLeaf ''c''))"
  by (simp_all add: defaultHashStrategy_def Bytes_def TestLeaf_abc sha_leaf_a sha_leaf_b sha_leaf_c)

lemma build3:
  "\<exists>H. buildMerkleTree [a, b, c] (Some hs) =
          Some (H, Some \<lparr>tree_root = Some 4, tree_n = 5, tree_leaves = [0, Suc 0, 2],
                         tree_hashStrategy = Some hs\<rparr>) \<and>
        cells H 0 = \<lparr>node_h = HashLeaf hs (Bytes a), node_left = None, node_right = None,
                      node_parent = Some 3\<rparr> \<and>
        cells H (Suc 0) = \<lparr>node_h = HashLeaf hs (Bytes b), node_left = None, node_right = None,
                      node_parent = Some 3\<rparr> \<and>
        cells H 2 = \<lparr>node_h = HashLeaf hs (Bytes c), node_left = None, node_right = None,
                      node_parent = Some 4\<rparr> \<and>
        cells H 3 = \<lparr>node_h = HashInternal hs (HashLeaf hs (Bytes a)) (HashLeaf hs (Bytes b)),
                      node_left = Some 0, node_right = Some (Suc 0), node_parent = Some 4\<rparr> \<and>
        cells H 4 = \<lparr>node_h = HashInternal hs
                        (HashInternal hs (HashLeaf hs (Bytes a)) (HashLeaf hs (Bytes b)))
                        (HashLeaf hs (Bytes c)),
                      node_left = Some 3, node_right = Some 2, node_parent = None\<rparr> \<and>
        (\<forall>a. 4 < a \<longrightarrow> node_left (cells H a) = None \<and> node_right (cells H a) = None)"
  by (simp add: buildMerkleTree_def leafLevel_def new_node_def empty_heap_def
      buildLoop.simps nextLevel_def mergePair_def set_parent_def Let_def)

lemma proofLoop3:
  assumes "cells H 0 = \<lparr>node_h = ha, node_left = None, node_right = None,
                      node_parent = Some 3\<rparr>"
   "cells H (Suc 0) = \<lparr>node_h = hb, node_left = None, node_right = None,
                      node_parent = Some 3\<rparr>"
   "cells H 2 = \<lparr>node_h = hc, node_left = None, node_right = None,
                      node_parent = Some 4\<rparr>"
   "cells H 3 = \<lparr>node_h = hab,
                      node_left = Some 0, node_right = Some (Suc 0), node_parent = Some 4\<rparr>"
   "cells H 4 = \<lparr>node_h = hr,
                      node_left = Some 3, node_right = Some 2, node_parent = None\<rparr>"
  shows "proofLoop H 0 [] [] = Some ([hb, hc], [False, False])"
    and "proofLoop H (Suc 0) [] [] = Some ([ha, hc], [True, False])"
    and "proofLoop H 2 [] [] = Some ([hab], [True])"
  using assms by (simp_all add: proofLoop.simps isLeft_def)

lemma Verify_built:
  assumes "buildMerkleTree data (Some hs) = Some (H, Some t)"
  shows "Verify H (Some t) = Some True"
proof -
  from assms have ne: "data \<noteq> []"
    by (auto simp: buildMerkleTree_def)
  from buildMerkleTree_forest [OF ne, of hs] assms obtain r where
    t: "t = \<lparr>tree_root = Some r, tree_n = 2 * int (length data) - 1,
             tree_leaves = [0..<length data], tree_hashStrategy = Some hs\<rparr>" and
    F: "forest hs H {r}"
    by auto
  from forest_rootD [OF F, of r] have "r < next_addr H" by simp
  with F show ?thesis
    by (simp add: Verify_def t verify_forest)
qed

lemma Proof_third:
  assumes B: "buildMerkleTree [a, b, c] (Some hs) = Some (H, Some t)"
    and t: "t = \<lparr>tree_root = Some 4, tree_n = 5, tree_leaves = [0, Suc 0, 2],
                 tree_hashStrategy = Some hs\<rparr>"
    and c: "cells H 0 = \<lparr>node_h = HashLeaf hs (Bytes a), node_left = None, node_right = None,
                      node_parent = Some 3\<rparr>"
       "cells H (Suc 0) = \<lparr>node_h = HashLeaf hs (Bytes b), node_left = None, node_right = None,
                      node_parent = Some 3\<rparr>"
       "cells H 2 = \<lparr>node_h = HashLeaf hs (Bytes c), node_left = None, node_right = None,
                      node_parent = Some 4\<rparr>"
       "cells H 3 = \<lparr>node_h = HashInternal hs (HashLeaf hs (Bytes a)) (HashLeaf hs (Bytes b)),
                      node_left = Some 0, node_right = Some (Suc 0), node_parent = Some 4\<rparr>"
       "cells H 4 = \<lparr>node_h = HashInternal hs
                        (HashInternal hs (HashLeaf hs (Bytes a)) (HashLeaf hs (Bytes b)))
                        (HashLeaf hs (Bytes c)),
                      node_left = Some 3, node_right = Some 2, node_parent = None\<rparr>"
  shows "VerifyExists H (Some t) c = Some (Some 2, None)"
    and "Proof H (Some t) c =
       Some (Some \<lparr>proof_root = HashInternal hs
                        (HashInternal hs (HashLeaf hs (Bytes a)) (HashLeaf hs (Bytes b)))
                        (HashLeaf hs (Bytes c)),
                   proof_siblings =
                     [HashInternal hs (HashLeaf hs (Bytes a)) (HashLeaf hs (Bytes b))],
                   proof_left = [True], proof_hashStrategy = Some hs\<rparr>, None)"
proof -
  have V: "Verify H (Some t) = Some True"
    by (rule Verify_built [OF B])
  have hs: "tree_hashStrategy t = Some hs" by (simp add: t)
  have "matches H hs c (tree_leaves t) \<noteq> []"
    "last (matches H hs c (tree_leaves t)) = 2"
    by (simp_all add: matches_def t c)
  with V show VE: "VerifyExists H (Some t) c = Some (Some 2, None)"
    by (simp add: VerifyExists_eq [OF hs])
  have R: "Root H (Some t) = node_h (cells H 4)"
    by (simp add: Root_def t)
  show "Proof H (Some t) c =
       Some (Some \<lparr>proof_root = HashInternal hs
                        (HashInternal hs (HashLeaf hs (Bytes a)) (HashLeaf hs (Bytes b)))
                        (HashLeaf hs (Bytes c)),
                   proof_siblings =
                     [HashInternal hs (HashLeaf hs (Bytes a)) (HashLeaf hs (Bytes b))],
                   proof_left = [True], proof_hashStrategy = Some hs\<rparr>, None)"
    unfolding Proof_def VE using proofLoop3 (3) [OF c] R hs by (simp add: c)
qed

lemma last_filter:
  "filter P xs \<noteq> [] \<Longrightarrow>
   \<exists>j < length xs. last (filter P xs) = xs ! j \<and> P (xs ! j) \<and>
      (\<forall>k. j < k \<and> k < length xs \<longrightarrow> \<not> P (xs ! k))"
proof (induction xs rule: rev_induct)
  case Nil
  then show ?case by simp
next
  case (snoc x xs)
  show ?case
  proof (cases "P x")
    case True
    then show ?thesis
      by (intro exI [of _ "length xs"]) auto
  next
    case False
    with snoc.prems have "filter P xs \<noteq> []" by simp
    from snoc.IH [OF this] obtain j where
      j: "j < length xs" "last (filter P xs) = xs ! j" "P (xs ! j)"
         "\<forall>k. j < k \<and> k < length xs \<longrightarrow> \<not> P (xs ! k)"
      by blast
    have "\<forall>k. j < k \<and> k < length (xs @ [x]) \<longrightarrow> \<not> P ((xs @ [x]) ! k)"
      using j(4) False by (auto simp: nth_append less_Suc_eq)
    with j False show ?thesis
      by (intro exI [of _ j]) (simp add: nth_append)
  qed
qed

lemma Proof_eq:
  assumes "tree_hashStrategy t = Some hs" and "matches H hs x (tree_leaves t) \<noteq> []"
  shows "Proof H (Some t) x =
     (case Verify H (Some t) of
        None \<Rightarrow> None
      | Some ok \<Rightarrow>
          if ok
          then (case proofLoop H (last (matches H hs x (tree_leaves t))) [] [] of
                  None \<Rightarrow> None
                | Some (siblings, left) \<Rightarrow>
                    Some (Some \<lparr>proof_root = Root H (Some t), proof_siblings = siblings,
                                proof_left = left, proof_hashStrategy = Some hs\<rparr>, None))
          else Some (None, Some ''unable to verify tree''))"
  using assms
  by (simp add: Proof_def VerifyExists_eq [OF assms(1)] split: option.splits)

section \<open>The node graph below a node\<close>

lemma nodes_of_self: "a \<in> nodes_of H a"
  by (simp add: nodes_of_def)

lemma nodes_of_child:
  "(c, a) \<in> child_rel H \<Longrightarrow> b \<in> nodes_of H c \<Longrightarrow> b \<in> nodes_of H a"
  by (auto simp: nodes_of_def intro: rtrancl_into_rtrancl)

lemma nodes_of_cases:
  assumes "b \<in> nodes_of H a"
  shows "b = a \<or> (\<exists>c. (c, a) \<in> child_rel H \<and> b \<in> nodes_of H c)"
proof -
  from assms have "(b, a) \<in> (child_rel H)\<^sup>*" by (simp add: nodes_of_def)
  then show ?thesis
    by (cases rule: rtrancl.cases) (auto simp: nodes_of_def)
qed

lemma verify_wf:
  assumes W: "wf (child_rel H)"
  shows "verify H hs a = Some (\<forall>b \<in> nodes_of H a. node_ok hs H b)"
  using W
proof (induction a rule: wf_induct_rule)
  case (less a)
  note self = nodes_of_self [of a H]
  show ?case
  proof (cases "node_left (cells H a)")
    case None
    note l = this
    show ?thesis
    proof (cases "node_right (cells H a)")
      case None
      with l have "\<And>c. (c, a) \<notin> child_rel H" by (simp add: child_rel_def)
      then have "nodes_of H a = {a}"
        using nodes_of_cases [of _ H a] self by blast
      moreover from l None have "node_ok hs H a" by (simp add: node_ok_def)
      moreover from l None have "verify H hs a = Some True"
        by (subst verify.simps) simp
      ultimately show ?thesis by simp
    next
      case (Some r)
      with l have "\<not> node_ok hs H a" by (simp add: node_ok_def)
      moreover from l Some have "verify H hs a = Some False"
        by (subst verify.simps) simp
      ultimately show ?thesis using self by auto
    qed
  next
    case (Some l)
    note l = this
    show ?thesis
    proof (cases "node_right (cells H a)")
      case None
      with l have "\<not> node_ok hs H a" by (simp add: node_ok_def)
      moreover from l None have "verify H hs a = Some False"
        by (subst verify.simps) simp
      ultimately show ?thesis using self by auto
    next
      case (Some r)
      note r = this
      from l r have ch: "(l, a) \<in> child_rel H" "(r, a) \<in> child_rel H"
        by (simp_all add: child_rel_def)
      from l r have only: "\<And>c. (c, a) \<in> child_rel H \<Longrightarrow> c = l \<or> c = r"
        by (auto simp: child_rel_def)
      have nodes: "nodes_of H a = insert a (nodes_of H l \<union> nodes_of H r)"
        using nodes_of_cases [of _ H a] only self nodes_of_child [OF ch(1)]
          nodes_of_child [OF ch(2)]
        by blast
      note ihl = less.IH [OF ch(1)] and ihr = less.IH [OF ch(2)]
      show ?thesis
      proof (cases "node_h (cells H a) =
          HashInternal hs (node_h (cells H l)) (node_h (cells H r))")
        case False
        with l r have "\<not> node_ok hs H a" by (simp add: node_ok_def)
        moreover from l r False have "verify H hs a = Some False"
          by (subst verify.simps) simp
        ultimately show ?thesis using self by auto
      next
        case True
        with l r have ok: "node_ok hs H a" by (simp add: node_ok_def)
        from l r True have "verify H hs a =
            Option.bind (verify H hs l) (\<lambda>ok. if ok then verify H hs r else Some False)"
          by (subst verify.simps) simp
        also have "\<dots> = Some ((\<forall>b \<in> nodes_of H l. node_ok hs H b) \<and>
                             (\<forall>b \<in> nodes_of H r. node_ok hs H b))"
          by (simp add: ihl ihr)
        finally show ?thesis
          using ok by (simp add: nodes ball_Un)
      qed
    qed
  qed
qed

lemma wf_child_rel_less:
  assumes "\<And>c a. (c, a) \<in> child_rel H \<Longrightarrow> c < a"
  shows "wf (child_rel H)"
proof (rule wf_subset [OF wf_less])
  show "child_rel H \<subseteq> {(x, y). x < y}"
    using assms by auto
qed

lemma wf_three:
  assumes "cells H 0 = \<lparr>node_h = ha, node_left = None, node_right = None,
                      node_parent = Some 3\<rparr>"
   "cells H (Suc 0) = \<lparr>node_h = hb, node_left = None, node_right = None,
                      node_parent = Some 3\<rparr>"
   "cells H 2 = \<lparr>node_h = hc, node_left = None, node_right = None,
                      node_parent = Some 4\<rparr>"
   "cells H 3 = \<lparr>node_h = hab,
                      node_left = Some 0, node_right = Some (Suc 0), node_parent = Some 4\<rparr>"
   "cells H 4 = \<lparr>node_h = hr,
                      node_left = Some 3, node_right = Some 2, node_parent = None\<rparr>"
   "\<forall>a. 4 < a \<longrightarrow> node_left (cells H a) = None \<and> node_right (cells H a) = None"
  shows "wf (child_rel H)"
    and "wf (child_rel (H\<lparr>cells := (cells H)(4 := (cells H 4)\<lparr>node_right := None\<rparr>)\<rparr>))"
proof -
  have cases: "a = 0 \<or> a = Suc 0 \<or> a = 2 \<or> a = 3 \<or> a = 4 \<or> 4 < a" for a :: nat
    by arith
  show "wf (child_rel H)"
  proof (rule wf_child_rel_less)
    fix c a
    assume "(c, a) \<in> child_rel H"
    with cases [of a] assms show "c < a"
      by (auto simp: child_rel_def)
  qed
  show "wf (child_rel (H\<lparr>cells := (cells H)(4 := (cells H 4)\<lparr>node_right := None\<rparr>)\<rparr>))"
  proof (rule wf_child_rel_less)
    fix c a
    assume "(c, a) \<in> child_rel (H\<lparr>cells := (cells H)(4 := (cells H 4)\<lparr>node_right := None\<rparr>)\<rparr>)"
    with cases [of a] assms show "c < a"
      by (auto simp: child_rel_def split: if_splits)
  qed
qed

section \<open>Properties of the package\<close>

text \<open>
  C1 (round trip). For every non-empty sequence of items and every item \<open>x\<close> of the
  sequence, \<^verbatim>\<open>BuildMerkleTree\<close> returns a tree, \<^verbatim>\<open>Proof(x)\<close> on that tree returns a proof
  and a nil error, and \<^verbatim>\<open>VerifyProof(x, proof)\<close> returns nil.
\<close>

theorem roundtrip_BuildMerkleTree:
  assumes "data \<noteq> []" and "x \<in> set data"
  shows "\<exists>H t p. BuildMerkleTree data = Some (H, Some t) \<and>
           Proof H (Some t) x = Some (Some p, None) \<and> VerifyProof x (Some p) = None"
  using roundtrip [OF assms] by (simp add: BuildMerkleTree_def)

theorem roundtrip_BuildMerkleTree_witness:
  "[TestLeaf ''a'', TestLeaf ''b'', TestLeaf ''c''] \<noteq> [] \<and>
   TestLeaf ''a'' \<in> set [TestLeaf ''a'', TestLeaf ''b'', TestLeaf ''c''] \<and>
   (\<exists>H t p. BuildMerkleTree [TestLeaf ''a'', TestLeaf ''b'', TestLeaf ''c''] = Some (H, Some t) \<and>
      Proof H (Some t) (TestLeaf ''a'') = Some (Some p, None) \<and>
      VerifyProof (TestLeaf ''a'') (Some p) = None)"
  using roundtrip_BuildMerkleTree
    [of "[TestLeaf ''a'', TestLeaf ''b'', TestLeaf ''c'']" "TestLeaf ''a''"]
  by simp

text \<open>
  C2 (node count), as stated: \<^verbatim>\<open>Len()\<close> is \<open>2n - 1\<close> exactly when the number \<open>n\<close> of
  items is a power of two, and strictly less whenever a level of odd length greater
  than one occurs. The three items "a", "b", "c" refute both parts: the first level has
  three nodes, three is not a power of two, and the count is \<open>5 = 2 * 3 - 1\<close>.
\<close>

lemma buildMerkleTree_Len:
  assumes "data \<noteq> []"
  shows "\<exists>H t. buildMerkleTree data (Some hs) = Some (H, Some t) \<and>
           Len (Some t) = 2 * int (length data) - 1"
  using buildMerkleTree_forest [OF assms, of hs] by (auto simp: Len_def)

lemma not_power_of_two_3: "\<not> power_of_two 3"
proof
  assume "power_of_two 3"
  then obtain k :: nat where k: "(3::nat) = 2 ^ k"
    by (auto simp: power_of_two_def)
  show False
  proof (cases k)
    case 0
    with k show False by simp
  next
    case (Suc j)
    with k have "(3::nat) = 2 * 2 ^ j" by simp
    then have "even (3::nat)" by (metis dvd_triv_left)
    then show False by simp
  qed
qed

theorem node_count_counterexample:
  "Len (snd (the (BuildMerkleTree [TestLeaf ''a'', TestLeaf ''b'', TestLeaf ''c'']))) =
     2 * int (length [TestLeaf ''a'', TestLeaf ''b'', TestLeaf ''c'']) - 1 \<and>
   \<not> power_of_two (length [TestLeaf ''a'', TestLeaf ''b'', TestLeaf ''c'']) \<and>
   odd (length [TestLeaf ''a'', TestLeaf ''b'', TestLeaf ''c'']) \<and>
   1 < length [TestLeaf ''a'', TestLeaf ''b'', TestLeaf ''c'']"
proof -
  have len: "length [TestLeaf ''a'', TestLeaf ''b'', TestLeaf ''c''] = 3" by simp
  have "\<not> power_of_two (length [TestLeaf ''a'', TestLeaf ''b'', TestLeaf ''c''])"
    unfolding len by (rule not_power_of_two_3)
  moreover have "odd (length [TestLeaf ''a'', TestLeaf ''b'', TestLeaf ''c''])"
    "1 < length [TestLeaf ''a'', TestLeaf ''b'', TestLeaf ''c'']"
    by simp_all
  moreover from buildMerkleTree_Len
    [of "[TestLeaf ''a'', TestLeaf ''b'', TestLeaf ''c'']" defaultHashStrategy]
  have "Len (snd (the (BuildMerkleTree [TestLeaf ''a'', TestLeaf ''b'', TestLeaf ''c'']))) =
     2 * int (length [TestLeaf ''a'', TestLeaf ''b'', TestLeaf ''c'']) - 1"
    by (auto simp: BuildMerkleTree_def)
  ultimately show ?thesis by blast
qed

text \<open>
  C2 (node count), amended. For every non-empty sequence of \<open>n\<close> items \<^verbatim>\<open>Len()\<close> is
  \<open>2n - 1\<close>, whether or not \<open>n\<close> is a power of two and whether or not a node is
  promoted: every internal node replaces two nodes of a level by one, so \<open>n - 1\<close>
  internal nodes are created. For three items the count is 5.
\<close>

theorem node_count:
  assumes "data \<noteq> []"
  shows "\<exists>H t. BuildMerkleTree data = Some (H, Some t) \<and>
           Len (Some t) = 2 * int (length data) - 1"
  using buildMerkleTree_Len [OF assms] by (simp add: BuildMerkleTree_def)

theorem node_count_witness:
  "[TestLeaf ''a'', TestLeaf ''b'', TestLeaf ''c''] \<noteq> [] \<and>
   (\<exists>H t. BuildMerkleTree [TestLeaf ''a'', TestLeaf ''b'', TestLeaf ''c''] = Some (H, Some t) \<and>
      Len (Some t) = 5)"
  using node_count [of "[TestLeaf ''a'', TestLeaf ''b'', TestLeaf ''c'']"] by simp

text \<open>
  C3 (three leaves). For the items "a", "b", "c" under the default strategy the root is
  \<open>HashInternal (HashInternal (HashLeaf a) (HashLeaf b)) (HashLeaf c)\<close>, and \<^verbatim>\<open>Proof\<close> of
  "a" returns that root, the siblings \<open>HashLeaf b\<close> and \<open>HashLeaf c\<close> in leaf-to-root
  order, the flags false and false, and a nil error. The leaf hash of "a" differs from
  those of "b" and "c" (their digests are computed above), so the scan finds the first
  leaf only.
\<close>

theorem three_leaf_scenario:
  "\<exists>H t. BuildMerkleTree [TestLeaf ''a'', TestLeaf ''b'', TestLeaf ''c''] = Some (H, Some t) \<and>
     Root H (Some t) =
       HashInternal defaultHashStrategy
         (HashInternal defaultHashStrategy
            (HashLeaf defaultHashStrategy (Bytes (TestLeaf ''a'')))
            (HashLeaf defaultHashStrategy (Bytes (TestLeaf ''b''))))
         (HashLeaf defaultHashStrategy (Bytes (TestLeaf ''c''))) \<and>
     Proof H (Some t) (TestLeaf ''a'') =
       Some (Some \<lparr>proof_root =
                     HashInternal defaultHashStrategy
                       (HashInternal defaultHashStrategy
                          (HashLeaf defaultHashStrategy (Bytes (TestLeaf ''a'')))
                          (HashLeaf defaultHashStrategy (Bytes (TestLeaf ''b''))))
                       (HashLeaf defaultHashStrategy (Bytes (TestLeaf ''c''))),
                   proof_siblings = [HashLeaf defaultHashStrategy (Bytes (TestLeaf ''b'')),
                                     HashLeaf defaultHashStrategy (Bytes (TestLeaf ''c''))],
                   proof_left = [False, False],
                   proof_hashStrategy = Some defaultHashStrategy\<rparr>, None)"
proof -
  let ?hs = defaultHashStrategy
  let ?t = "\<lparr>tree_root = Some 4, tree_n = 5, tree_leaves = [0, Suc 0, 2],
             tree_hashStrategy = Some ?hs\<rparr>"
  from build3 [of "TestLeaf ''a''" "TestLeaf ''b''" "TestLeaf ''c''" ?hs] obtain H where
    B: "buildMerkleTree [TestLeaf ''a'', TestLeaf ''b'', TestLeaf ''c''] (Some ?hs) =
          Some (H, Some ?t)" and
    c: "cells H 0 = \<lparr>node_h = HashLeaf ?hs (Bytes (TestLeaf ''a'')), node_left = None,
                      node_right = None, node_parent = Some 3\<rparr>"
       "cells H (Suc 0) = \<lparr>node_h = HashLeaf ?hs (Bytes (TestLeaf ''b'')), node_left = None,
                      node_right = None, node_parent = Some 3\<rparr>"
       "cells H 2 = \<lparr>node_h = HashLeaf ?hs (Bytes (TestLeaf ''c'')), node_left = None,
                      node_right = None, node_parent = Some 4\<rparr>"
       "cells H 3 = \<lparr>node_h = HashInternal ?hs (HashLeaf ?hs (Bytes (TestLeaf ''a'')))
                                  (HashLeaf ?hs (Bytes (TestLeaf ''b''))),
                      node_left = Some 0, node_right = Some (Suc 0), node_parent = Some 4\<rparr>"
       "cells H 4 = \<lparr>node_h = HashInternal ?hs
                        (HashInternal ?hs (HashLeaf ?hs (Bytes (TestLeaf ''a'')))
                           (HashLeaf ?hs (Bytes (TestLeaf ''b''))))
                        (HashLeaf ?hs (Bytes (TestLeaf ''c''))),
                      node_left = Some 3, node_right = Some 2, node_parent = None\<rparr>"
    by blast
  have V: "Verify H (Some ?t) = Some True"
    by (rule Verify_built [OF B])
  have m: "matches H ?hs (TestLeaf ''a'') (tree_leaves ?t) = [0]"
    using leaf_hashes_distinct by (simp add: matches_def c)
  have VE: "VerifyExists H (Some ?t) (TestLeaf ''a'') = Some (Some 0, None)"
    by (subst VerifyExists_eq [where hs = ?hs]) (simp_all only: m V, simp_all)
  have R: "Root H (Some ?t) = node_h (cells H 4)"
    by (simp add: Root_def)
  have P: "Proof H (Some ?t) (TestLeaf ''a'') =
       Some (Some \<lparr>proof_root = node_h (cells H 4),
                   proof_siblings = [HashLeaf ?hs (Bytes (TestLeaf ''b'')),
                                     HashLeaf ?hs (Bytes (TestLeaf ''c''))],
                   proof_left = [False, False],
                   proof_hashStrategy = Some ?hs\<rparr>, None)"
    unfolding Proof_def VE R [symmetric] using proofLoop3 (1) [OF c] R by simp
  from B R P show ?thesis
    unfolding BuildMerkleTree_def by (intro exI [of _ H] exI [of _ ?t]) (simp add: c)
qed


text \<open>
  C4 (promotion, not duplication). For all items \<open>a\<close>, \<open>b\<close>, \<open>c\<close> and every
  strategy, the default one included, \<^verbatim>\<open>Proof\<close> of the third item returns one sibling,
  \<open>HashInternal (HashLeaf a) (HashLeaf b)\<close>, with the flag true: the path has length 1
  and not 2, and its entry is the hash of the subtree of \<open>a\<close> and \<open>b\<close>, not a
  second copy of \<open>HashLeaf c\<close> as a tree that duplicated the last node would give.
  That no byte sequence of the proof equals \<open>HashLeaf c\<close> is the separation of leaf
  hashes from internal hashes; for a strategy that separates them, neither the sibling
  nor the root is \<open>HashLeaf c\<close>. (For SHA-256 the separation is the collision
  resistance the scheme relies on.)
\<close>

theorem promotion_not_duplication:
  "BuildMerkleTree [a, b, c] =
     BuildMerkleTreeWithHashStrategy [a, b, c] (Some defaultHashStrategy) \<and>
   (\<exists>H t p. BuildMerkleTreeWithHashStrategy [a, b, c] (Some hs) = Some (H, Some t) \<and>
     Proof H (Some t) c = Some (Some p, None) \<and>
     proof_siblings p = [HashInternal hs (HashLeaf hs (Bytes a)) (HashLeaf hs (Bytes b))] \<and>
     proof_left p = [True] \<and>
     proof_root p = HashInternal hs
                      (HashInternal hs (HashLeaf hs (Bytes a)) (HashLeaf hs (Bytes b)))
                      (HashLeaf hs (Bytes c)) \<and>
     proof_hashStrategy p = Some hs \<and>
     length (proof_siblings p) = 1 \<and> length (proof_siblings p) \<noteq> 2 \<and>
     ((\<forall>l r y. HashInternal hs l r \<noteq> HashLeaf hs y) \<longrightarrow>
        HashLeaf hs (Bytes c) \<notin> set (proof_siblings p) \<and>
        proof_root p \<noteq> HashLeaf hs (Bytes c)))"
proof -
  from build3 [of a b c hs] obtain H where
    B: "buildMerkleTree [a, b, c] (Some hs) =
          Some (H, Some \<lparr>tree_root = Some 4, tree_n = 5, tree_leaves = [0, Suc 0, 2],
                         tree_hashStrategy = Some hs\<rparr>)" and
    c: "cells H 0 = \<lparr>node_h = HashLeaf hs (Bytes a), node_left = None, node_right = None,
                      node_parent = Some 3\<rparr>"
       "cells H (Suc 0) = \<lparr>node_h = HashLeaf hs (Bytes b), node_left = None, node_right = None,
                      node_parent = Some 3\<rparr>"
       "cells H 2 = \<lparr>node_h = HashLeaf hs (Bytes c), node_left = None, node_right = None,
                      node_parent = Some 4\<rparr>"
       "cells H 3 = \<lparr>node_h = HashInternal hs (HashLeaf hs (Bytes a)) (HashLeaf hs (Bytes b)),
                      node_left = Some 0, node_right = Some (Suc 0), node_parent = Some 4\<rparr>"
       "cells H 4 = \<lparr>node_h = HashInternal hs
                        (HashInternal hs (HashLeaf hs (Bytes a)) (HashLeaf hs (Bytes b)))
                        (HashLeaf hs (Bytes c)),
                      node_left = Some 3, node_right = Some 2, node_parent = None\<rparr>"
    by blast
  define p where "p = \<lparr>proof_root = HashInternal hs
                        (HashInternal hs (HashLeaf hs (Bytes a)) (HashLeaf hs (Bytes b)))
                        (HashLeaf hs (Bytes c)),
                   proof_siblings =
                     [HashInternal hs (HashLeaf hs (Bytes a)) (HashLeaf hs (Bytes b))],
                   proof_left = [True], proof_hashStrategy = Some hs\<rparr>"
  have P: "Proof H (Some \<lparr>tree_root = Some 4, tree_n = 5, tree_leaves = [0, Suc 0, 2],
                         tree_hashStrategy = Some hs\<rparr>) c = Some (Some p, None)"
    unfolding p_def by (rule Proof_third (2) [OF B refl c])
  have sep: "(\<forall>l r y. HashInternal hs l r \<noteq> HashLeaf hs y) \<longrightarrow>
        HashLeaf hs (Bytes c) \<notin> set (proof_siblings p) \<and>
        proof_root p \<noteq> HashLeaf hs (Bytes c)"
    unfolding p_def by simp metis
  have fields: "proof_siblings p =
       [HashInternal hs (HashLeaf hs (Bytes a)) (HashLeaf hs (Bytes b))]"
    "proof_left p = [True]"
    "proof_root p = HashInternal hs
                      (HashInternal hs (HashLeaf hs (Bytes a)) (HashLeaf hs (Bytes b)))
                      (HashLeaf hs (Bytes c))"
    "proof_hashStrategy p = Some hs"
    "length (proof_siblings p) = 1" "length (proof_siblings p) \<noteq> 2"
    by (simp_all add: p_def)
  from B have B': "BuildMerkleTreeWithHashStrategy [a, b, c] (Some hs) =
      Some (H, Some \<lparr>tree_root = Some 4, tree_n = 5, tree_leaves = [0, Suc 0, 2],
                         tree_hashStrategy = Some hs\<rparr>)"
    by (simp add: BuildMerkleTreeWithHashStrategy_def)
  have "BuildMerkleTree [a, b, c] =
     BuildMerkleTreeWithHashStrategy [a, b, c] (Some defaultHashStrategy)"
    by (simp add: BuildMerkleTree_def BuildMerkleTreeWithHashStrategy_def)
  moreover from B' P fields sep have
    "\<exists>H t p. BuildMerkleTreeWithHashStrategy [a, b, c] (Some hs) = Some (H, Some t) \<and>
     Proof H (Some t) c = Some (Some p, None) \<and>
     proof_siblings p = [HashInternal hs (HashLeaf hs (Bytes a)) (HashLeaf hs (Bytes b))] \<and>
     proof_left p = [True] \<and>
     proof_root p = HashInternal hs
                      (HashInternal hs (HashLeaf hs (Bytes a)) (HashLeaf hs (Bytes b)))
                      (HashLeaf hs (Bytes c)) \<and>
     proof_hashStrategy p = Some hs \<and>
     length (proof_siblings p) = 1 \<and> length (proof_siblings p) \<noteq> 2 \<and>
     ((\<forall>l r y. HashInternal hs l r \<noteq> HashLeaf hs y) \<longrightarrow>
        HashLeaf hs (Bytes c) \<notin> set (proof_siblings p) \<and>
        proof_root p \<noteq> HashLeaf hs (Bytes c))"
    by blast
  ultimately show ?thesis by (rule conjI)
qed


theorem promotion_not_duplication_witness:
  "(\<forall>l r y. HashInternal taggedStrategy l r \<noteq> HashLeaf taggedStrategy y) \<and>
   (\<exists>H t p. BuildMerkleTreeWithHashStrategy [TestLeaf ''a'', TestLeaf ''b'', TestLeaf ''c'']
               (Some taggedStrategy) = Some (H, Some t) \<and>
      Proof H (Some t) (TestLeaf ''c'') = Some (Some p, None) \<and>
      proof_siblings p = [[0x01, 0x00, 0x61, 0x00, 0x62]] \<and>
      proof_left p = [True] \<and>
      HashLeaf taggedStrategy (Bytes (TestLeaf ''c'')) \<notin> set (proof_siblings p) \<and>
      proof_root p \<noteq> HashLeaf taggedStrategy (Bytes (TestLeaf ''c'')))"
proof -
  have sep: "\<forall>l r y. HashInternal taggedStrategy l r \<noteq> HashLeaf taggedStrategy y"
    by (simp add: taggedStrategy_def)
  from promotion_not_duplication
    [of "TestLeaf ''a''" "TestLeaf ''b''" "TestLeaf ''c''" taggedStrategy] sep
  obtain H t p where
    "BuildMerkleTreeWithHashStrategy [TestLeaf ''a'', TestLeaf ''b'', TestLeaf ''c'']
               (Some taggedStrategy) = Some (H, Some t)"
    "Proof H (Some t) (TestLeaf ''c'') = Some (Some p, None)"
    "proof_siblings p = [HashInternal taggedStrategy
        (HashLeaf taggedStrategy (Bytes (TestLeaf ''a'')))
        (HashLeaf taggedStrategy (Bytes (TestLeaf ''b'')))]"
    "proof_left p = [True]"
    "HashLeaf taggedStrategy (Bytes (TestLeaf ''c'')) \<notin> set (proof_siblings p)"
    "proof_root p \<noteq> HashLeaf taggedStrategy (Bytes (TestLeaf ''c''))"
    by blast
  moreover have "HashInternal taggedStrategy
        (HashLeaf taggedStrategy (Bytes (TestLeaf ''a'')))
        (HashLeaf taggedStrategy (Bytes (TestLeaf ''b''))) = [0x01, 0x00, 0x61, 0x00, 0x62]"
    by (simp add: taggedStrategy_def Bytes_def TestLeaf_abc)
  ultimately show ?thesis using sep by auto
qed

text \<open>
  C5 (default hashing). The default strategy hashes a leaf as SHA-256 of the byte 0x00
  followed by the item bytes, and an internal node as SHA-256 of the byte 0x01 followed
  by the left hash and then the right hash. The two tag bytes differ, so a leaf
  preimage is never an internal preimage. On the item "a" the leaf hash is the SHA-256
  digest 022a6979...f93c of the bytes 00 61, and the internal hash of "a" and "b" is
  the digest 170404e0...af18 of the bytes 01 61 62 (not of 01 62 61).
\<close>

theorem default_hashing:
  "HashLeaf defaultHashStrategy b = HashSHA256 (0x00 # b) \<and>
   HashInternal defaultHashStrategy l r = HashSHA256 (0x01 # l @ r) \<and>
   (0x00 # b :: byte list) \<noteq> 0x01 # l @ r \<and>
   HashLeaf defaultHashStrategy (Bytes (TestLeaf ''a'')) =
     [2, 42, 105, 121, 230, 218, 183, 170, 90, 228, 195, 229, 228, 95, 126, 151,
      113, 18, 167, 230, 53, 147, 130, 13, 190, 193, 236, 115, 138, 36, 249, 60] \<and>
   HashInternal defaultHashStrategy (Bytes (TestLeaf ''a'')) (Bytes (TestLeaf ''b'')) =
     [23, 4, 4, 224, 84, 64, 244, 80, 98, 196, 35, 5, 45, 90, 220, 251,
      44, 157, 84, 110, 207, 203, 32, 34, 214, 195, 74, 244, 116, 219, 175, 24]"
  by (simp add: defaultHashStrategy_def Bytes_def TestLeaf_abc sha_leaf_a sha_internal_ab)

text \<open>
  C6 (\<^verbatim>\<open>Verify\<close>). On a node graph without a cycle through the child pointers, as
  every graph the builder makes is, \<^verbatim>\<open>Verify\<close> returns, and it returns true exactly
  when the tree is present (the receiver is not nil and has a root node), has a
  strategy, and every node reached from the root is sound: it has no children, or it
  has both and stores \<open>HashInternal\<close> of their hashes under the tree's strategy.
  Otherwise it returns false; in particular a reached node with exactly one child
  makes it return false, and so do a nil tree and a tree without strategy. (On a cycle
  of sound nodes the recursion of \<^verbatim>\<open>Node.verify\<close> does not end.)
\<close>

theorem Verify_semantics:
  assumes "wf (child_rel H)"
  shows
    "(Verify H m = Some True \<longleftrightarrow>
        (\<exists>t r hs. m = Some t \<and> tree_root t = Some r \<and> tree_hashStrategy t = Some hs \<and>
           (\<forall>a \<in> nodes_of H r. node_ok hs H a))) \<and>
     (Verify H m = Some False \<longleftrightarrow>
        \<not> (\<exists>t r hs. m = Some t \<and> tree_root t = Some r \<and> tree_hashStrategy t = Some hs \<and>
           (\<forall>a \<in> nodes_of H r. node_ok hs H a))) \<and>
     (\<forall>t r a. m = Some t \<and> tree_root t = Some r \<and> a \<in> nodes_of H r \<and>
          (node_left (cells H a) = None) \<noteq> (node_right (cells H a) = None) \<longrightarrow>
          Verify H m = Some False) \<and>
     Verify H None = Some False \<and>
     (\<forall>t. tree_hashStrategy t = None \<longrightarrow> Verify H (Some t) = Some False)"
proof -
  let ?P = "\<exists>t r hs. m = Some t \<and> tree_root t = Some r \<and> tree_hashStrategy t = Some hs \<and>
           (\<forall>a \<in> nodes_of H r. node_ok hs H a)"
  have V: "Verify H m = Some ?P"
  proof (cases m)
    case None
    then show ?thesis by (simp add: Verify_def)
  next
    case (Some t)
    show ?thesis
    proof (cases "tree_root t")
      case None
      with Some show ?thesis by (simp add: Verify_def)
    next
      case r: (Some r)
      show ?thesis
      proof (cases "tree_hashStrategy t")
        case None
        with Some r show ?thesis by (simp add: Verify_def)
      next
        case hs: (Some hs)
        with Some r show ?thesis
          by (simp add: Verify_def verify_wf [OF assms])
      qed
    qed
  qed
  have one: "Verify H m = Some False"
    if "m = Some t" "tree_root t = Some r" "a \<in> nodes_of H r"
      "(node_left (cells H a) = None) \<noteq> (node_right (cells H a) = None)" for t r a
  proof -
    from that(4) have "\<not> node_ok hs H a" for hs
      by (auto simp: node_ok_def split: option.splits)
    with that(1-3) have "\<not> ?P" by auto
    with V show ?thesis by simp
  qed
  have A: "Verify H m = Some True \<longleftrightarrow> ?P"
    unfolding V by simp
  have B: "Verify H m = Some False \<longleftrightarrow> \<not> ?P"
    unfolding V by simp
  have C: "\<forall>t r a. m = Some t \<and> tree_root t = Some r \<and> a \<in> nodes_of H r \<and>
          (node_left (cells H a) = None) \<noteq> (node_right (cells H a) = None) \<longrightarrow>
          Verify H m = Some False"
    using one by blast
  have D: "Verify H None = Some False"
    by (simp add: Verify_def)
  have E: "\<forall>t. tree_hashStrategy t = None \<longrightarrow> Verify H (Some t) = Some False"
    by (simp add: Verify_def split: option.splits)
  from A B C D E show ?thesis by (intro conjI)
qed


text \<open>
  The tree built from "a", "b", "c" has no cycle and verifies; with the right child of
  its root removed, the root has exactly one child and \<^verbatim>\<open>Verify\<close> returns false.
\<close>

theorem Verify_semantics_witness:
  "\<exists>H t. BuildMerkleTree [TestLeaf ''a'', TestLeaf ''b'', TestLeaf ''c''] = Some (H, Some t) \<and>
     wf (child_rel H) \<and> Verify H (Some t) = Some True \<and>
     (\<forall>n \<in> nodes_of H 4. node_ok defaultHashStrategy H n) \<and>
     wf (child_rel (H\<lparr>cells := (cells H)(4 := (cells H 4)\<lparr>node_right := None\<rparr>)\<rparr>)) \<and>
     node_left (cells (H\<lparr>cells := (cells H)(4 := (cells H 4)\<lparr>node_right := None\<rparr>)\<rparr>) 4) =
       Some 3 \<and>
     node_right (cells (H\<lparr>cells := (cells H)(4 := (cells H 4)\<lparr>node_right := None\<rparr>)\<rparr>) 4) =
       None \<and>
     Verify (H\<lparr>cells := (cells H)(4 := (cells H 4)\<lparr>node_right := None\<rparr>)\<rparr>) (Some t) =
       Some False"
proof -
  let ?hs = defaultHashStrategy
  let ?a = "TestLeaf ''a''"
  let ?b = "TestLeaf ''b''"
  let ?c = "TestLeaf ''c''"
  let ?t = "\<lparr>tree_root = Some 4, tree_n = 5, tree_leaves = [0, Suc 0, 2],
             tree_hashStrategy = Some ?hs\<rparr>"
  from build3 [of ?a ?b ?c ?hs] obtain H where
    B: "buildMerkleTree [?a, ?b, ?c] (Some ?hs) = Some (H, Some ?t)" and
    c: "cells H 0 = \<lparr>node_h = HashLeaf ?hs (Bytes ?a), node_left = None,
                      node_right = None, node_parent = Some 3\<rparr>"
       "cells H (Suc 0) = \<lparr>node_h = HashLeaf ?hs (Bytes ?b), node_left = None,
                      node_right = None, node_parent = Some 3\<rparr>"
       "cells H 2 = \<lparr>node_h = HashLeaf ?hs (Bytes ?c), node_left = None,
                      node_right = None, node_parent = Some 4\<rparr>"
       "cells H 3 = \<lparr>node_h = HashInternal ?hs (HashLeaf ?hs (Bytes ?a))
                                  (HashLeaf ?hs (Bytes ?b)),
                      node_left = Some 0, node_right = Some (Suc 0), node_parent = Some 4\<rparr>"
       "cells H 4 = \<lparr>node_h = HashInternal ?hs
                        (HashInternal ?hs (HashLeaf ?hs (Bytes ?a)) (HashLeaf ?hs (Bytes ?b)))
                        (HashLeaf ?hs (Bytes ?c)),
                      node_left = Some 3, node_right = Some 2, node_parent = None\<rparr>" and
    e: "\<forall>a. 4 < a \<longrightarrow> node_left (cells H a) = None \<and> node_right (cells H a) = None"
    by blast
  let ?H' = "H\<lparr>cells := (cells H)(4 := (cells H 4)\<lparr>node_right := None\<rparr>)\<rparr>"
  note W = wf_three [OF c e]
  have V: "Verify H (Some ?t) = Some True"
    by (rule Verify_built [OF B])
  from Verify_semantics [OF W(1), of "Some ?t"] V
  have ok: "\<forall>n \<in> nodes_of H 4. node_ok ?hs H n"
    by simp
  have l: "node_left (cells ?H' 4) = Some 3" and r: "node_right (cells ?H' 4) = None"
    by (simp_all add: c)
  have "4 \<in> nodes_of ?H' 4" by (rule nodes_of_self)
  with Verify_semantics [OF W(2), of "Some ?t"] l r
  have V': "Verify ?H' (Some ?t) = Some False"
    by (metis MerkleTree.select_convs(1) option.distinct(1))
  from B have B': "BuildMerkleTree [?a, ?b, ?c] = Some (H, Some ?t)"
    by (simp add: BuildMerkleTree_def)
  from B' W V ok l r V' show ?thesis by blast
qed

text \<open>
  C7 (errors of \<^verbatim>\<open>VerifyExists\<close>). On a tree with a strategy, \<^verbatim>\<open>VerifyExists(x)\<close>
  returns the error "not in tree" if and only if no retained leaf stores the leaf hash
  of \<open>x\<close>, and then the node is nil. When some leaf matches, the node is a retained
  leaf whose hash matches (the last one), and the error is "unable to verify tree" when
  \<^verbatim>\<open>Verify\<close> returns false and nil when it returns true; the call returns whenever
  \<^verbatim>\<open>Verify\<close> does.
\<close>

theorem VerifyExists_errors:
  assumes "tree_hashStrategy t = Some hs"
  shows
   "((\<exists>node. VerifyExists H (Some t) x = Some (node, Some ''not in tree'')) \<longleftrightarrow>
       (\<forall>l \<in> set (tree_leaves t). node_h (cells H l) \<noteq> HashLeaf hs (Bytes x))) \<and>
    ((\<forall>l \<in> set (tree_leaves t). node_h (cells H l) \<noteq> HashLeaf hs (Bytes x)) \<longrightarrow>
       VerifyExists H (Some t) x = Some (None, Some ''not in tree'')) \<and>
    ((\<exists>l \<in> set (tree_leaves t). node_h (cells H l) = HashLeaf hs (Bytes x)) \<longrightarrow>
       last (matches H hs x (tree_leaves t)) \<in> set (tree_leaves t) \<and>
       node_h (cells H (last (matches H hs x (tree_leaves t)))) = HashLeaf hs (Bytes x) \<and>
       (Verify H (Some t) = Some False \<longrightarrow>
          VerifyExists H (Some t) x =
            Some (Some (last (matches H hs x (tree_leaves t))),
                  Some ''unable to verify tree'')) \<and>
       (Verify H (Some t) = Some True \<longrightarrow>
          VerifyExists H (Some t) x =
            Some (Some (last (matches H hs x (tree_leaves t))), None)) \<and>
       (Verify H (Some t) = None \<longrightarrow> VerifyExists H (Some t) x = None))"
proof -
  let ?ms = "matches H hs x (tree_leaves t)"
  have empty: "?ms = [] \<longleftrightarrow>
      (\<forall>l \<in> set (tree_leaves t). node_h (cells H l) \<noteq> HashLeaf hs (Bytes x))"
    by (auto simp: matches_def filter_empty_conv)
  have in_ms: "last ?ms \<in> set (tree_leaves t) \<and>
      node_h (cells H (last ?ms)) = HashLeaf hs (Bytes x)" if "?ms \<noteq> []"
  proof -
    from that have "last ?ms \<in> set ?ms" by simp
    then show ?thesis by (auto simp: matches_def)
  qed
  note eq = VerifyExists_eq [OF assms, of H x]
  have 1: "(\<exists>node. VerifyExists H (Some t) x = Some (node, Some ''not in tree'')) \<longleftrightarrow>
       ?ms = []"
    unfolding eq by (auto split: option.splits)
  have 2: "?ms = [] \<longrightarrow> VerifyExists H (Some t) x = Some (None, Some ''not in tree'')"
    unfolding eq by simp
  have 3: "?ms \<noteq> [] \<longrightarrow>
       (Verify H (Some t) = Some False \<longrightarrow>
          VerifyExists H (Some t) x = Some (Some (last ?ms), Some ''unable to verify tree'')) \<and>
       (Verify H (Some t) = Some True \<longrightarrow>
          VerifyExists H (Some t) x = Some (Some (last ?ms), None)) \<and>
       (Verify H (Some t) = None \<longrightarrow> VerifyExists H (Some t) x = None)"
    unfolding eq by simp
  from 1 2 3 in_ms show ?thesis
    unfolding empty by blast
qed

text \<open>
  The three outcomes: "c" in the tree of "a", "b", "c"; the same with the right child
  of the root removed; and "a", which the tree of "b", "c", "b" does not hold.
\<close>

theorem VerifyExists_errors_witness:
  "\<exists>H t H2 t2.
     BuildMerkleTree [TestLeaf ''a'', TestLeaf ''b'', TestLeaf ''c''] = Some (H, Some t) \<and>
     tree_hashStrategy t = Some defaultHashStrategy \<and>
     VerifyExists H (Some t) (TestLeaf ''c'') = Some (Some 2, None) \<and>
     Verify (H\<lparr>cells := (cells H)(4 := (cells H 4)\<lparr>node_right := None\<rparr>)\<rparr>) (Some t) =
       Some False \<and>
     VerifyExists (H\<lparr>cells := (cells H)(4 := (cells H 4)\<lparr>node_right := None\<rparr>)\<rparr>) (Some t)
       (TestLeaf ''c'') = Some (Some 2, Some ''unable to verify tree'') \<and>
     BuildMerkleTree [TestLeaf ''b'', TestLeaf ''c'', TestLeaf ''b''] = Some (H2, Some t2) \<and>
     tree_hashStrategy t2 = Some defaultHashStrategy \<and>
     VerifyExists H2 (Some t2) (TestLeaf ''a'') = Some (None, Some ''not in tree'')"
proof -
  let ?hs = defaultHashStrategy
  let ?a = "TestLeaf ''a''"
  let ?b = "TestLeaf ''b''"
  let ?c = "TestLeaf ''c''"
  let ?t = "\<lparr>tree_root = Some 4, tree_n = 5, tree_leaves = [0, Suc 0, 2],
             tree_hashStrategy = Some ?hs\<rparr>"
  from build3 [of ?a ?b ?c ?hs] obtain H where
    B: "buildMerkleTree [?a, ?b, ?c] (Some ?hs) = Some (H, Some ?t)" and
    c: "cells H 0 = \<lparr>node_h = HashLeaf ?hs (Bytes ?a), node_left = None,
                      node_right = None, node_parent = Some 3\<rparr>"
       "cells H (Suc 0) = \<lparr>node_h = HashLeaf ?hs (Bytes ?b), node_left = None,
                      node_right = None, node_parent = Some 3\<rparr>"
       "cells H 2 = \<lparr>node_h = HashLeaf ?hs (Bytes ?c), node_left = None,
                      node_right = None, node_parent = Some 4\<rparr>"
       "cells H 3 = \<lparr>node_h = HashInternal ?hs (HashLeaf ?hs (Bytes ?a))
                                  (HashLeaf ?hs (Bytes ?b)),
                      node_left = Some 0, node_right = Some (Suc 0), node_parent = Some 4\<rparr>"
       "cells H 4 = \<lparr>node_h = HashInternal ?hs
                        (HashInternal ?hs (HashLeaf ?hs (Bytes ?a)) (HashLeaf ?hs (Bytes ?b)))
                        (HashLeaf ?hs (Bytes ?c)),
                      node_left = Some 3, node_right = Some 2, node_parent = None\<rparr>" and
    e: "\<forall>a. 4 < a \<longrightarrow> node_left (cells H a) = None \<and> node_right (cells H a) = None"
    by blast
  from build3 [of ?b ?c ?b ?hs] obtain H2 where
    B2: "buildMerkleTree [?b, ?c, ?b] (Some ?hs) = Some (H2, Some ?t)" and
    c2: "node_h (cells H2 0) = HashLeaf ?hs (Bytes ?b)"
        "node_h (cells H2 (Suc 0)) = HashLeaf ?hs (Bytes ?c)"
        "node_h (cells H2 2) = HashLeaf ?hs (Bytes ?b)"
    by fastforce
  let ?H' = "H\<lparr>cells := (cells H)(4 := (cells H 4)\<lparr>node_right := None\<rparr>)\<rparr>"
  have hs: "tree_hashStrategy ?t = Some ?hs" by simp
  have V: "Verify H (Some ?t) = Some True"
    by (rule Verify_built [OF B])
  have V': "Verify ?H' (Some ?t) = Some False"
    by (simp add: Verify_def) (subst verify.simps, simp add: c)
  have m: "\<exists>l \<in> set (tree_leaves ?t). node_h (cells H l) = HashLeaf ?hs (Bytes ?c)"
    "last (matches H ?hs ?c (tree_leaves ?t)) = 2"
    by (simp_all add: matches_def c)
  have m': "\<exists>l \<in> set (tree_leaves ?t). node_h (cells ?H' l) = HashLeaf ?hs (Bytes ?c)"
    "last (matches ?H' ?hs ?c (tree_leaves ?t)) = 2"
    by (simp_all add: matches_def c)
  have no: "\<forall>l \<in> set (tree_leaves ?t). node_h (cells H2 l) \<noteq> HashLeaf ?hs (Bytes ?a)"
    using leaf_hashes_distinct by (simp add: c2 eq_commute [of _ "HashLeaf ?hs (Bytes ?a)"])
  note C = VerifyExists_errors [OF hs, of H ?c, THEN conjunct2, THEN conjunct2, THEN mp, OF m(1)]
  from C V have "VerifyExists H (Some ?t) ?c =
      Some (Some (last (matches H ?hs ?c (tree_leaves ?t))), None)"
    by blast
  then have 1: "VerifyExists H (Some ?t) ?c = Some (Some 2, None)"
    by (simp only: m(2))
  note C' = VerifyExists_errors [OF hs, of ?H' ?c, THEN conjunct2, THEN conjunct2, THEN mp,
      OF m'(1)]
  from C' V' have "VerifyExists ?H' (Some ?t) ?c =
      Some (Some (last (matches ?H' ?hs ?c (tree_leaves ?t))), Some ''unable to verify tree'')"
    by blast
  then have 2: "VerifyExists ?H' (Some ?t) ?c = Some (Some 2, Some ''unable to verify tree'')"
    by (simp only: m'(2))
  note N = VerifyExists_errors [OF hs, of H2 ?a, THEN conjunct2, THEN conjunct1, THEN mp, OF no]
  have 3: "VerifyExists H2 (Some ?t) ?a = Some (None, Some ''not in tree'')"
    by (rule N)
  from B B2 have B': "BuildMerkleTree [?a, ?b, ?c] = Some (H, Some ?t)"
    "BuildMerkleTree [?b, ?c, ?b] = Some (H2, Some ?t)"
    by (simp_all add: BuildMerkleTree_def)
  from B' hs 1 V' 2 3 show ?thesis by blast
qed



text \<open>
  C9 (empty input). Building from no items returns a nil tree, with either entry point
  and whatever the strategy. On a nil tree \<^verbatim>\<open>Root()\<close> returns the nil slice and
  \<^verbatim>\<open>Len()\<close> returns \<open>-1\<close>, which is not 0. Both methods are total: their bodies
  dereference nothing before the nil test.
\<close>

theorem empty_input:
  "BuildMerkleTree [] = Some (empty_heap, None) \<and>
   BuildMerkleTreeWithHashStrategy [] hash = Some (empty_heap, None) \<and>
   Root H None = [] \<and> Len None = - 1 \<and> Len None \<noteq> 0"
  by (simp add: BuildMerkleTree_def BuildMerkleTreeWithHashStrategy_def buildMerkleTree_def
      Root_def Len_def)

text \<open>
  C10 (duplicate items). When some retained leaf has the leaf hash of the item,
  \<^verbatim>\<open>VerifyExists\<close> returns the rightmost such leaf: the leaf at the largest index
  \<open>j\<close> whose stored hash matches, at or after any matching index \<open>i\<close>. It returns
  whenever \<^verbatim>\<open>Verify\<close> does, and \<^verbatim>\<open>Proof\<close> takes its sibling path from that leaf.
\<close>

theorem rightmost_duplicate:
  assumes "tree_hashStrategy t = Some hs"
    and "i < length (tree_leaves t)"
    and "node_h (cells H (tree_leaves t ! i)) = HashLeaf hs (Bytes x)"
  shows "\<exists>j. i \<le> j \<and> j < length (tree_leaves t) \<and>
      node_h (cells H (tree_leaves t ! j)) = HashLeaf hs (Bytes x) \<and>
      (\<forall>k. j < k \<and> k < length (tree_leaves t) \<longrightarrow>
           node_h (cells H (tree_leaves t ! k)) \<noteq> HashLeaf hs (Bytes x)) \<and>
      VerifyExists H (Some t) x =
        (case Verify H (Some t) of
           None \<Rightarrow> None
         | Some ok \<Rightarrow>
             Some (Some (tree_leaves t ! j),
                   if ok then None else Some ''unable to verify tree'')) \<and>
      Proof H (Some t) x =
        (case Verify H (Some t) of
           None \<Rightarrow> None
         | Some ok \<Rightarrow>
             if ok
             then (case proofLoop H (tree_leaves t ! j) [] [] of
                     None \<Rightarrow> None
                   | Some (siblings, left) \<Rightarrow>
                       Some (Some \<lparr>proof_root = Root H (Some t), proof_siblings = siblings,
                                   proof_left = left, proof_hashStrategy = Some hs\<rparr>, None))
             else Some (None, Some ''unable to verify tree''))"
proof -
  let ?P = "\<lambda>l. HashLeaf hs (Bytes x) = node_h (cells H l)"
  from assms(2,3) have "tree_leaves t ! i \<in> set (filter ?P (tree_leaves t))"
    by simp
  then have ne: "matches H hs x (tree_leaves t) \<noteq> []"
    unfolding matches_def by (metis empty_iff list.set(1))
  from last_filter [of ?P "tree_leaves t"] ne obtain j where
    j: "j < length (tree_leaves t)"
       "last (matches H hs x (tree_leaves t)) = tree_leaves t ! j"
       "?P (tree_leaves t ! j)"
       "\<forall>k. j < k \<and> k < length (tree_leaves t) \<longrightarrow> \<not> ?P (tree_leaves t ! k)"
    unfolding matches_def by blast
  from j(4) assms(2,3) have ij: "i \<le> j"
    by (metis linorder_not_less)
  have VE: "VerifyExists H (Some t) x =
        (case Verify H (Some t) of
           None \<Rightarrow> None
         | Some ok \<Rightarrow>
             Some (Some (tree_leaves t ! j),
                   if ok then None else Some ''unable to verify tree''))"
    using ne by (simp add: VerifyExists_eq [OF assms(1)] j(2) split: option.splits)
  note P = Proof_eq [OF assms(1) ne, unfolded j(2)]
  from ij j VE P show ?thesis
    by (intro exI [of _ j]) (simp add: eq_commute [of "HashLeaf hs (Bytes x)"])
qed


text \<open>
  For the items "a", "b", "a" the proof of "a" is the one-step path of the third leaf,
  not the two-step path of the first.
\<close>

theorem rightmost_duplicate_witness:
  "\<exists>H t. BuildMerkleTree [TestLeaf ''a'', TestLeaf ''b'', TestLeaf ''a''] = Some (H, Some t) \<and>
     tree_hashStrategy t = Some defaultHashStrategy \<and>
     0 < length (tree_leaves t) \<and>
     node_h (cells H (tree_leaves t ! 0)) =
       HashLeaf defaultHashStrategy (Bytes (TestLeaf ''a'')) \<and>
     VerifyExists H (Some t) (TestLeaf ''a'') = Some (Some 2, None) \<and>
     Proof H (Some t) (TestLeaf ''a'') =
       Some (Some \<lparr>proof_root = Root H (Some t),
                   proof_siblings =
                     [HashInternal defaultHashStrategy
                        (HashLeaf defaultHashStrategy (Bytes (TestLeaf ''a'')))
                        (HashLeaf defaultHashStrategy (Bytes (TestLeaf ''b'')))],
                   proof_left = [True],
                   proof_hashStrategy = Some defaultHashStrategy\<rparr>, None)"
proof -
  let ?hs = defaultHashStrategy
  let ?a = "TestLeaf ''a''"
  let ?b = "TestLeaf ''b''"
  let ?t = "\<lparr>tree_root = Some 4, tree_n = 5, tree_leaves = [0, Suc 0, 2],
             tree_hashStrategy = Some ?hs\<rparr>"
  from build3 [of ?a ?b ?a ?hs] obtain H where
    B: "buildMerkleTree [?a, ?b, ?a] (Some ?hs) = Some (H, Some ?t)" and
    c: "cells H 0 = \<lparr>node_h = HashLeaf ?hs (Bytes ?a), node_left = None,
                      node_right = None, node_parent = Some 3\<rparr>"
       "cells H (Suc 0) = \<lparr>node_h = HashLeaf ?hs (Bytes ?b), node_left = None,
                      node_right = None, node_parent = Some 3\<rparr>"
       "cells H 2 = \<lparr>node_h = HashLeaf ?hs (Bytes ?a), node_left = None,
                      node_right = None, node_parent = Some 4\<rparr>"
       "cells H 3 = \<lparr>node_h = HashInternal ?hs (HashLeaf ?hs (Bytes ?a))
                                  (HashLeaf ?hs (Bytes ?b)),
                      node_left = Some 0, node_right = Some (Suc 0), node_parent = Some 4\<rparr>"
       "cells H 4 = \<lparr>node_h = HashInternal ?hs
                        (HashInternal ?hs (HashLeaf ?hs (Bytes ?a)) (HashLeaf ?hs (Bytes ?b)))
                        (HashLeaf ?hs (Bytes ?a)),
                      node_left = Some 3, node_right = Some 2, node_parent = None\<rparr>"
    by blast
  have hs: "tree_hashStrategy ?t = Some ?hs" by simp
  have i: "0 < length (tree_leaves ?t)" by simp
  have m: "node_h (cells H (tree_leaves ?t ! 0)) = HashLeaf ?hs (Bytes ?a)"
    by (simp add: c)
  from rightmost_duplicate [OF hs i m] obtain j where
    j: "j < length (tree_leaves ?t)"
       "\<forall>k. j < k \<and> k < length (tree_leaves ?t) \<longrightarrow>
            node_h (cells H (tree_leaves ?t ! k)) \<noteq> HashLeaf ?hs (Bytes ?a)" and
    VE: "VerifyExists H (Some ?t) ?a =
        (case Verify H (Some ?t) of
           None \<Rightarrow> None
         | Some ok \<Rightarrow>
             Some (Some (tree_leaves ?t ! j),
                   if ok then None else Some ''unable to verify tree''))" and
    P: "Proof H (Some ?t) ?a =
        (case Verify H (Some ?t) of
           None \<Rightarrow> None
         | Some ok \<Rightarrow>
             if ok
             then (case proofLoop H (tree_leaves ?t ! j) [] [] of
                     None \<Rightarrow> None
                   | Some (siblings, left) \<Rightarrow>
                       Some (Some \<lparr>proof_root = Root H (Some ?t), proof_siblings = siblings,
                                   proof_left = left, proof_hashStrategy = Some ?hs\<rparr>, None))
             else Some (None, Some ''unable to verify tree''))"
    by blast
  have "\<not> j < 2"
  proof
    assume "j < 2"
    have l2: "tree_leaves ?t ! 2 = 2" "2 < length (tree_leaves ?t)" by simp_all
    from j(2) \<open>j < 2\<close> l2(2)
    have "node_h (cells H (tree_leaves ?t ! 2)) \<noteq> HashLeaf ?hs (Bytes ?a)"
      by blast
    then show False unfolding l2(1) by (simp add: c)
  qed
  with j(1) have j2: "j = 2" by simp
  have V: "Verify H (Some ?t) = Some True"
    by (rule Verify_built [OF B])
  from VE have VE': "VerifyExists H (Some ?t) ?a = Some (Some 2, None)"
    by (simp add: V j2)
  from P proofLoop3 (3) [OF c] have P': "Proof H (Some ?t) ?a =
       Some (Some \<lparr>proof_root = Root H (Some ?t),
                   proof_siblings =
                     [HashInternal ?hs (HashLeaf ?hs (Bytes ?a)) (HashLeaf ?hs (Bytes ?b))],
                   proof_left = [True], proof_hashStrategy = Some ?hs\<rparr>, None)"
    by (simp add: V j2)
  from B have B': "BuildMerkleTree [?a, ?b, ?a] = Some (H, Some ?t)"
    by (simp add: BuildMerkleTree_def)
  from B' hs i m VE' P' show ?thesis by blast
qed

end
